theory Spec2Isabelle
  imports Complex_Main
begin

section \<open>Errors\<close>

text \<open>
  The Python exceptions that the mesh code raises, as values. A failed \<open>assert\<close> is an
  \<open>AssertionError\<close> carrying the message of the assertion (empty when the source
  gives none).
\<close>

datatype error =
  AssertionError string
  | NotImplementedError string
  | PyException string
  | NameError string
  | UnboundLocalError string
  | TypeError string
  | ZeroDivisionError
  | ValueError
  | IndexError

section \<open>Matrices\<close>

text \<open>
  A scipy sparse matrix is modelled by its shape and its entries; the storage format
  (csr, coo) is not observable from the operators. Every matrix built below goes through
  \<open>mk\<close>, which fixes the entries outside the shape to zero, so that two matrices with
  the same shape and the same entries inside the shape are equal.
\<close>

record mat =
  nr :: nat
  nc :: nat
  ent :: "nat \<Rightarrow> nat \<Rightarrow> real"

definition mk :: "nat \<Rightarrow> nat \<Rightarrow> (nat \<Rightarrow> nat \<Rightarrow> real) \<Rightarrow> mat" where
  "mk r c f = \<lparr>nr = r, nc = c, ent = (\<lambda>i j. if i < r \<and> j < c then f i j else 0)\<rparr>"

text \<open>
  A matrix is normal when its entries outside the shape are zero. The notion serves the
  proofs: every matrix built with \<open>mk\<close> is normal.
\<close>

definition normal :: "mat \<Rightarrow> bool" where
  "normal A = (mk (nr A) (nc A) (ent A) = A)"

text \<open>The matrix product \<open>A * B\<close> of scipy (the inner dimension is that of \<open>A\<close>).\<close>

definition mmul :: "mat \<Rightarrow> mat \<Rightarrow> mat" where
  "mmul A B = mk (nr A) (nc B) (\<lambda>i j. \<Sum>k<nc A. ent A i k * ent B k j)"

text \<open>Unary minus and multiplication by a scalar (\<open>-M\<close>, \<open>0.5 * M\<close>).\<close>

definition mneg :: "mat \<Rightarrow> mat" where
  "mneg A = mk (nr A) (nc A) (\<lambda>i j. - ent A i j)"

definition smul :: "real \<Rightarrow> mat \<Rightarrow> mat" where
  "smul a A = mk (nr A) (nc A) (\<lambda>i j. a * ent A i j)"

text \<open>The sum \<open>A + B\<close> of two matrices of one shape.\<close>

definition madd :: "mat \<Rightarrow> mat \<Rightarrow> mat" where
  "madd A B = mk (nr A) (nc A) (\<lambda>i j. ent A i j + ent B i j)"

text \<open>
  \<open>sp.kron(A, B)\<close>: the block matrix whose block \<open>(a, b)\<close> is \<open>A[a, b] * B\<close>.
\<close>

definition kron :: "mat \<Rightarrow> mat \<Rightarrow> mat" where
  "kron A B = mk (nr A * nr B) (nc A * nc B)
     (\<lambda>i j. ent A (i div nr B) (j div nc B) * ent B (i mod nr B) (j mod nc B))"

text \<open>
  \<open>sp.hstack\<close>, \<open>sp.vstack\<close> and \<open>sp.block_diag\<close> on a sequence of blocks, folded
  from the left with the binary forms. scipy refuses blocks whose row counts (column
  counts for \<open>vstack\<close>) differ, and a product whose inner dimensions differ; the
  theorems below that rest on a stack or a product first show that the shapes agree.
\<close>

definition hcat :: "mat \<Rightarrow> mat \<Rightarrow> mat" where
  "hcat A B = mk (nr A) (nc A + nc B)
     (\<lambda>i j. if j < nc A then ent A i j else ent B i (j - nc A))"

definition vcat :: "mat \<Rightarrow> mat \<Rightarrow> mat" where
  "vcat A B = mk (nr A + nr B) (nc A)
     (\<lambda>i j. if i < nr A then ent A i j else ent B (i - nr A) j)"

definition bdiag :: "mat \<Rightarrow> mat \<Rightarrow> mat" where
  "bdiag A B = mk (nr A + nr B) (nc A + nc B)
     (\<lambda>i j. if i < nr A \<and> j < nc A then ent A i j
            else if nr A \<le> i \<and> nc A \<le> j then ent B (i - nr A) (j - nc A)
            else 0)"

fun hstack :: "mat list \<Rightarrow> mat" where
  "hstack [] = mk 0 0 (\<lambda>i j. 0)"
| "hstack (A # As) = foldl hcat A As"

fun vstack :: "mat list \<Rightarrow> mat" where
  "vstack [] = mk 0 0 (\<lambda>i j. 0)"
| "vstack (A # As) = foldl vcat A As"

fun block_diag :: "mat list \<Rightarrow> mat" where
  "block_diag [] = mk 0 0 (\<lambda>i j. 0)"
| "block_diag (A # As) = foldl bdiag A As"

text \<open>Column slices \<open>M[:, 1:]\<close> and \<open>M[:, :-1]\<close>.\<close>

definition cols_from1 :: "mat \<Rightarrow> mat" where
  "cols_from1 A = mk (nr A) (nc A - 1) (\<lambda>i j. ent A i (j + 1))"

definition cols_butlast :: "mat \<Rightarrow> mat" where
  "cols_butlast A = mk (nr A) (nc A - 1) (\<lambda>i j. ent A i j)"

text \<open>The item assignment \<open>M[a, b] = v\<close>; scipy raises IndexError outside the shape.\<close>

definition set_item :: "mat \<Rightarrow> nat \<Rightarrow> nat \<Rightarrow> real \<Rightarrow> error + mat" where
  "set_item A a b v =
     (if a < nr A \<and> b < nc A
      then Inr (mk (nr A) (nc A) (\<lambda>i j. if i = a \<and> j = b then v else ent A i j))
      else Inl IndexError)"

text \<open>
  \<open>sp.csr_matrix((data, (rows, cols)), shape=(r, c))\<close>: entry \<open>(i, j)\<close> is the sum of the
  data whose coordinates are \<open>(i, j)\<close>.
\<close>

definition csr_matrix :: "real list \<Rightarrow> nat list \<Rightarrow> nat list \<Rightarrow> nat \<Rightarrow> nat \<Rightarrow> mat" where
  "csr_matrix dat rows cols r c = mk r c
     (\<lambda>i j. \<Sum>k<length dat. if rows ! k = i \<and> cols ! k = j then dat ! k else 0)"

text \<open>
  \<open>sp.spdiags(data, diags, m, n)\<close>: the entry \<open>(i, j)\<close> on diagonal \<open>j - i = diags[k]\<close>
  is \<open>data[k][j]\<close>.
\<close>

definition spdiags :: "real list list \<Rightarrow> int list \<Rightarrow> nat \<Rightarrow> nat \<Rightarrow> mat" where
  "spdiags dat diags m n = mk m n
     (\<lambda>i j. \<Sum>k<length diags. if int j - int i = diags ! k then dat ! k ! j else 0)"

text \<open>\<open>sp.identity(n)\<close> and \<open>sp.eye(n)\<close>.\<close>

definition identity :: "nat \<Rightarrow> mat" where
  "identity n = mk n n (\<lambda>i j. if i = j then 1 else 0)"

text \<open>
  Row selection by a boolean mask, \<open>M[mask, :]\<close>: the rows whose mask entry is true, in
  order.
\<close>

definition select_rows :: "mat \<Rightarrow> bool list \<Rightarrow> mat" where
  "select_rows A keep =
     (let idx = filter (\<lambda>i. keep ! i) [0..<nr A]
      in mk (length idx) (nc A) (\<lambda>i j. ent A (idx ! i) j))"

subsection \<open>The helpers of \<open>discretize.utils\<close>\<close>

text \<open>
  Modelled from the spec: \<open>utils.speye\<close>, \<open>utils.spzeros\<close>, \<open>utils.sdiag\<close>,
  \<open>utils.kron3\<close>, \<open>utils.ddx\<close> and \<open>utils.av\<close> are not among the source files. The
  spec names them as the identity, the zero block, the diagonal scaling
  \<open>diag(v)\<close>, the axis-ordered Kronecker product, the 1-D first difference (forward
  difference, no ghost contribution: \<open>n\<close> rows, \<open>n + 1\<close> columns, \<open>-1\<close> on the diagonal and
  \<open>+1\<close> right of it, the matrix \<open>edgeCurl\<close> also writes out as \<open>dz\<close>) and the 1-D
  two-point averaging stencil (weights one half).
\<close>

definition speye :: "nat \<Rightarrow> mat" where
  "speye n = mk n n (\<lambda>i j. if i = j then 1 else 0)"

definition spzeros :: "nat \<Rightarrow> nat \<Rightarrow> mat" where
  "spzeros r c = mk r c (\<lambda>i j. 0)"

definition sdiag :: "real list \<Rightarrow> mat" where
  "sdiag v = mk (length v) (length v) (\<lambda>i j. if i = j then v ! i else 0)"

definition kron3 :: "mat \<Rightarrow> mat \<Rightarrow> mat \<Rightarrow> mat" where
  "kron3 A B C = kron (kron A B) C"

definition ddx :: "nat \<Rightarrow> mat" where
  "ddx n = mk n (n + 1) (\<lambda>i j. if j = i then - 1 else if j = i + 1 then 1 else 0)"

definition av :: "nat \<Rightarrow> mat" where
  "av n = mk n (n + 1) (\<lambda>i j. if j = i \<or> j = i + 1 then 1 / 2 else 0)"

text \<open>
  The product \<open>sdiag(u) * M * sdiag(v)\<close> scales row \<open>i\<close> of \<open>M\<close> by \<open>u[i]\<close> and
  column \<open>j\<close> by \<open>v[j]\<close>; \<open>scale\<close> names the result.
\<close>

definition scale :: "real list \<Rightarrow> mat \<Rightarrow> real list \<Rightarrow> mat" where
  "scale u M v = mk (nr M) (nc M) (\<lambda>i j. u ! i * ent M i j * v ! j)"

section \<open>Vectors\<close>

text \<open>
  A numpy vector is a list of reals. \<open>np.kron\<close> of two vectors, \<open>cumsum\<close>,
  \<open>np.ones\<close>, the elementwise square, difference and reciprocal, and \<open>np.arange\<close> with a
  positive step. The reciprocal of zero is \<open>inf\<close> in numpy and \<open>0\<close> here: the theorems
  that use it are about meshes with positive widths, where no area or volume is zero.
\<close>

definition kronv :: "real list \<Rightarrow> real list \<Rightarrow> real list" where
  "kronv a b = concat (map (\<lambda>x. map (\<lambda>y. x * y) b) a)"

fun cumsum_from :: "real \<Rightarrow> real list \<Rightarrow> real list" where
  "cumsum_from a [] = []"
| "cumsum_from a (x # xs) = (a + x) # cumsum_from (a + x) xs"

definition cumsum :: "real list \<Rightarrow> real list" where
  "cumsum xs = cumsum_from 0 xs"

definition ones :: "nat \<Rightarrow> real list" where
  "ones n = replicate n 1"

definition sq :: "real list \<Rightarrow> real list" where
  "sq v = map (\<lambda>x. x ^ 2) v"

definition vsub :: "real list \<Rightarrow> real list \<Rightarrow> real list" where
  "vsub a b = map2 (\<lambda>x y. x - y) a b"

definition scal :: "real \<Rightarrow> real list \<Rightarrow> real list" where
  "scal c v = map (\<lambda>x. c * x) v"

definition recip :: "real list \<Rightarrow> real list" where
  "recip v = map (\<lambda>x. 1 / x) v"

definition arange :: "nat \<Rightarrow> nat \<Rightarrow> nat \<Rightarrow> nat list" where
  "arange start stop step = map (\<lambda>k. start + k * step) [0..<(stop - start + step - 1) div step]"

section \<open>The cylindrical mesh\<close>

text \<open>
  A mesh holds the three width sequences, the origin and the Cartesian origin: the mesh of
  the spec's data model, built from three width arrays, whose dimension, the number of
  width arrays, is 3. The disk mesh that the constructor builds from two width arrays is
  modelled further below, with its own dimension.
\<close>

record mesh =
  hx :: "real list"
  hy :: "real list"
  hz :: "real list"
  x0 :: "real list"
  cartesianOrigin :: "real list"

definition dim :: "mesh \<Rightarrow> nat" where
  "dim m = 3"

subsection \<open>Counts\<close>

text \<open>
  Modelled from the spec: the cell counts per axis, the count vectors \<open>vnC\<close>, \<open>vnN\<close>,
  \<open>vnFy\<close>, \<open>vnFz\<close>, \<open>vnEx\<close>, \<open>vnF\<close> and the totals \<open>nC\<close>, \<open>nFx\<close>, \<open>nFy\<close>, \<open>nFz\<close>,
  \<open>nEx\<close>, \<open>nEy\<close>, \<open>nF\<close>, \<open>nE\<close> belong to the tensor-mesh base classes, which are not among
  the source files. The spec derives them from the axis cell counts: an axis has one node
  more than cells (\<open>nNz\<close>), a face family counts nodes along its normal and cells along
  the other axes, an edge family counts cells along its tangent and nodes along the other
  axes, and a total is the product of its count vector.
\<close>

definition nCx :: "mesh \<Rightarrow> nat" where "nCx m = length (hx m)"
definition nCy :: "mesh \<Rightarrow> nat" where "nCy m = length (hy m)"
definition nCz :: "mesh \<Rightarrow> nat" where "nCz m = length (hz m)"
definition nNz :: "mesh \<Rightarrow> nat" where "nNz m = nCz m + 1"
definition vnC :: "mesh \<Rightarrow> nat list" where "vnC m = [nCx m, nCy m, nCz m]"
definition nC :: "mesh \<Rightarrow> nat" where "nC m = prod_list (vnC m)"

definition isSymmetric :: "mesh \<Rightarrow> bool" where
  "isSymmetric m = (nCy m = 1)"

definition nNx :: "mesh \<Rightarrow> nat" where
  "nNx m = (if isSymmetric m then nCx m else nCx m + 1)"

definition nNy :: "mesh \<Rightarrow> nat" where
  "nNy m = (if isSymmetric m then 0 else nCy m)"

definition vnN :: "mesh \<Rightarrow> nat list" where "vnN m = [nNx m, nNy m, nNz m]"

definition vnFx :: "mesh \<Rightarrow> nat list" where
  "vnFx m = vnC m"

definition vnFy :: "mesh \<Rightarrow> nat list" where "vnFy m = [nCx m, nNy m, nCz m]"
definition vnFz :: "mesh \<Rightarrow> nat list" where "vnFz m = [nCx m, nCy m, nNz m]"
definition nFx :: "mesh \<Rightarrow> nat" where "nFx m = prod_list (vnFx m)"
definition nFy :: "mesh \<Rightarrow> nat" where "nFy m = prod_list (vnFy m)"
definition nFz :: "mesh \<Rightarrow> nat" where "nFz m = prod_list (vnFz m)"
definition vnF :: "mesh \<Rightarrow> nat list" where "vnF m = [nFx m, nFy m, nFz m]"
definition nF :: "mesh \<Rightarrow> nat" where "nF m = sum_list (vnF m)"

definition vnEx :: "mesh \<Rightarrow> nat list" where "vnEx m = [nCx m, nNy m, nNz m]"

definition vnEy :: "mesh \<Rightarrow> nat list" where
  "vnEy m = (let n = (if isSymmetric m then nNx m else nNx m - 1) in [n, nCy m, nNz m])"

definition vnEz :: "mesh \<Rightarrow> nat list option" where
  "vnEz m = (if isSymmetric m then Some [nNx m, nNy m, nCz m] else None)"

definition nEx :: "mesh \<Rightarrow> nat" where "nEx m = prod_list (vnEx m)"
definition nEy :: "mesh \<Rightarrow> nat" where "nEy m = prod_list (vnEy m)"

definition nEz :: "mesh \<Rightarrow> nat" where
  "nEz m = (if isSymmetric m then prod_list (the (vnEz m))
            else prod_list [nNx m - 1, nNy m, nCz m] + nCz m)"

definition nE :: "mesh \<Rightarrow> nat" where "nE m = nEx m + nEy m + nEz m"

subsection \<open>Construction\<close>

text \<open>
  \<open>CylMesh.__init__\<close> after the base class has stored the widths and the origin: the
  azimuthal widths must sum to \<open>2 * pi\<close> within \<open>1e-10\<close>, and the Cartesian origin, the
  zero vector when none is given, must have as many entries as the mesh has dimensions.
  The tolerance test is taken over the reals.
\<close>

definition init :: "real list \<times> real list \<times> real list \<Rightarrow> real list \<Rightarrow> real list option
    \<Rightarrow> error + mesh" where
  "init h origin co =
     (case h of (h1, h2, h3) \<Rightarrow>
        let m = \<lparr>hx = h1, hy = h2, hz = h3, x0 = origin, cartesianOrigin = []\<rparr> in
        if \<not> \<bar>sum_list (hy m) - 2 * pi\<bar> < 1 / 10 ^ 10
        then Inl (AssertionError ''The 2nd dimension must sum to 2*pi'')
        else
          let c = (case co of None \<Rightarrow> replicate (dim m) 0 | Some c' \<Rightarrow> c') in
          if length c \<noteq> dim m
          then Inl (AssertionError
                 ''cartesianOrigin must be the same length as the dimension of the mesh.'')
          else Inr (m\<lparr>cartesianOrigin := c\<rparr>))"

text \<open>
  A valid mesh in the sense of the spec: positive widths on every axis, and azimuthal
  widths that pass the test of the constructor.
\<close>

definition positive :: "real list \<Rightarrow> bool" where
  "positive v = list_all (\<lambda>w. 0 < w) v"

definition valid :: "mesh \<Rightarrow> bool" where
  "valid m = (positive (hx m) \<and> positive (hy m) \<and> positive (hz m)
     \<and> \<bar>sum_list (hy m) - 2 * pi\<bar> < 1 / 10 ^ 10)"

subsection \<open>Grid vectors, edge lengths, face areas, cell volumes\<close>

definition vectorNx :: "mesh \<Rightarrow> real list" where
  "vectorNx m = (if isSymmetric m then cumsum (hx m) else cumsum (0 # hx m))"

definition vectorNy :: "mesh \<Rightarrow> real list" where
  "vectorNy m = (if isSymmetric m then [0] else cumsum (0 # butlast (hy m)))"

definition vectorNz :: "mesh \<Rightarrow> real list" where
  "vectorNz m = cumsum (0 # hz m)"

text \<open>
  Modelled from the spec: \<open>gridN\<close> is the tensor grid of the nodes, built by the base
  class from \<open>vectorNx\<close>, \<open>vectorNy\<close> and \<open>vectorNz\<close> with the first axis running fastest;
  its first column repeats \<open>vectorNx\<close> once for every pair of the other two vectors.
\<close>

definition gridN_col0 :: "mesh \<Rightarrow> real list" where
  "gridN_col0 m = kronv (ones (length (vectorNz m))) (kronv (ones (length (vectorNy m))) (vectorNx m))"

definition edge :: "mesh \<Rightarrow> real list" where
  "edge m =
     (if isSymmetric m then scal (2 * pi) (gridN_col0 m)
      else
        let edgeR = kronv (ones (vnC m ! 2 + 1)) (kronv (ones (vnC m ! 1)) (hx m));
            edgeT = kronv (ones (vnC m ! 2 + 1)) (kronv (hy m) (tl (vectorNx m)));
            edgeZ = kronv (hz m) (ones (prod_list (take 2 (vnC m)) + 1))
        in edgeR @ edgeT @ edgeZ)"

definition area :: "mesh \<Rightarrow> real list" where
  "area m =
     (if isSymmetric m then
        let areaR = kronv (hz m) (scal (2 * pi) (vectorNx m));
            areaZ = kronv (ones (length (vectorNz m)))
                      (scal pi (vsub (sq (vectorNx m)) (sq (0 # butlast (vectorNx m)))))
        in areaR @ areaZ
      else
        let areaR = kronv (hz m) (kronv (hy m) (tl (vectorNx m)));
            areaT = kronv (hz m) (kronv (ones (nNy m)) (hx m));
            areaZ = kronv (ones (nNz m))
                      (kronv (hy m)
                         (scal (1 / 2) (vsub (sq (tl (vectorNx m))) (sq (butlast (vectorNx m))))))
        in areaR @ areaT @ areaZ)"

definition vol :: "mesh \<Rightarrow> real list" where
  "vol m =
     (if isSymmetric m then
        let az = scal pi (vsub (sq (vectorNx m)) (sq (0 # butlast (vectorNx m))))
        in kronv (hz m) az
      else
        kronv (hz m)
          (kronv (hy m)
             (scal (1 / 2) (vsub (sq (tl (vectorNx m))) (sq (butlast (vectorNx m)))))))"

section \<open>Deflation matrices\<close>

definition wrap_theta :: "mesh \<Rightarrow> mat" where
  "wrap_theta m =
     csr_matrix (replicate (vnC m ! 1 + 1) 1)
       (arange 0 (vnC m ! 1 + 1) 1) (arange 0 (vnC m ! 1) 1 @ [0])
       (vnC m ! 1 + 1) (vnC m ! 1)"

definition collapse_x :: "mesh \<Rightarrow> mat" where
  "collapse_x m =
     csr_matrix (replicate (vnC m ! 0) 1)
       (arange 1 (vnC m ! 0 + 1) 1) (arange 0 (vnC m ! 0) 1)
       (vnC m ! 0 + 1) (vnC m ! 0)"

text \<open>
  The keep-mask of the \<open>Ez\<close> branch: all true, then false at the indices of
  \<open>removeme\<close>.
\<close>

definition removeme :: "mesh \<Rightarrow> nat list" where
  "removeme m = arange (vnN m ! 0) (prod_list (take 2 (vnN m))) (vnN m ! 0)"

definition keepme :: "mesh \<Rightarrow> bool list" where
  "keepme m = fold (\<lambda>i k. k[i := False]) (removeme m)
                (replicate (prod_list (take 2 (vnN m))) True)"

text \<open>
  \<open>_deflationMatrix\<close>. A tag outside the accepted list fails the assertion, which has
  no message. The tags \<open>N\<close>, \<open>F\<close>, \<open>E\<close>, \<open>Ex\<close> and \<open>Ey\<close> pass the assertion, reach no
  \<open>return\<close> and give Python's \<open>None\<close>. \<open>np.arange\<close> with step zero raises.
\<close>

definition deflationMatrix :: "mesh \<Rightarrow> string \<Rightarrow> error + mat option" where
  "deflationMatrix m location =
     (if location \<notin> set ([''N'', ''F'', ''Fx'', ''Fy'', ''E'', ''Ex'', ''Ey'']
                           @ (if dim m = 3 then [''Fz'', ''Ez''] else []))
      then Inl (AssertionError [])
      else if location = ''Fx'' then
        Inr (Some (kron3 (speye (vnC m ! 2)) (speye (vnC m ! 1)) (collapse_x m)))
      else if location = ''Fy'' then
        Inr (Some (kron3 (speye (vnC m ! 2)) (wrap_theta m) (speye (vnC m ! 0))))
      else if location = ''Fz'' then
        Inr (Some (speye (vnF m ! 2)))
      else if location = ''Ex'' then Inr None
      else if location = ''Ey'' then Inr None
      else if location = ''Ez'' then
        (if vnN m ! 0 = 0 then Inl ZeroDivisionError
         else
           let eye = identity (prod_list (take 2 (vnN m)));
               eye = select_rows eye (keepme m)
           in Inr (Some (kron (speye (nCz m)) eye)))
      else Inr None)"

section \<open>Differential operators\<close>

text \<open>
  Modelled from the spec: \<open>self.r(self.area, 'F', tag, 'V')\<close> belongs to the base class.
  It cuts the part of the face vector that belongs to one face family: the \<open>x\<close> faces
  first, then the \<open>y\<close> faces, then the \<open>z\<close> faces.
\<close>

definition r_F :: "mesh \<Rightarrow> real list \<Rightarrow> string \<Rightarrow> real list" where
  "r_F m v tag =
     (if tag = ''Fx'' then take (nFx m) v
      else if tag = ''Fy'' then take (nFy m) (drop (nFx m) v)
      else take (nFz m) (drop (nFx m + nFy m) v))"

text \<open>
  The operators are cached on first use in the source; the mesh is immutable and the
  value cached is the value computed, so each operator is a function of the mesh.
  Multiplying by \<open>None\<close> would be a TypeError.
\<close>

definition faceDivx :: "mesh \<Rightarrow> error + mat" where
  "faceDivx m =
     (case deflationMatrix m ''Fx'' of
        Inl e \<Rightarrow> Inl e
      | Inr None \<Rightarrow> Inl (TypeError ''NoneType'')
      | Inr (Some P) \<Rightarrow>
          let D1 = mmul (kron3 (speye (nCz m)) (speye (nCy m)) (ddx (nCx m))) P;
              S = r_F m (area m) ''Fx'';
              V = vol m
          in Inr (mmul (mmul (sdiag (recip V)) D1) (sdiag S)))"

definition faceDivy :: "mesh \<Rightarrow> error + mat" where
  "faceDivy m =
     (case deflationMatrix m ''Fy'' of
        Inl e \<Rightarrow> Inl e
      | Inr None \<Rightarrow> Inl (TypeError ''NoneType'')
      | Inr (Some P) \<Rightarrow>
          let D2 = mmul (kron3 (speye (nCz m)) (ddx (nCy m)) (speye (nCx m))) P;
              S = r_F m (area m) ''Fy'';
              V = vol m
          in Inr (mmul (mmul (sdiag (recip V)) D2) (sdiag S)))"

definition faceDivz :: "mesh \<Rightarrow> mat" where
  "faceDivz m =
     (let D3 = kron3 (ddx (nCz m)) (speye (nCy m)) (speye (nCx m));
          S = r_F m (area m) ''Fz'';
          V = vol m
      in mmul (mmul (sdiag (recip V)) D3) (sdiag S))"

text \<open>
  \<open>faceDiv\<close>: when the mesh is not symmetric and has no more than one azimuthal cell,
  neither branch binds \<open>D\<close>.
\<close>

definition faceDiv :: "mesh \<Rightarrow> error + mat" where
  "faceDiv m =
     (case faceDivx m of
        Inl e \<Rightarrow> Inl e
      | Inr D1 \<Rightarrow>
          let D3 = faceDivz m in
          if isSymmetric m then Inr (hstack [D1, D3])
          else if nCy m > 1 then
            (case faceDivy m of
               Inl e \<Rightarrow> Inl e
             | Inr D2 \<Rightarrow> Inr (hstack [D1, D2, D3]))
          else Inl (UnboundLocalError ''D''))"

definition cellGrad :: "mesh \<Rightarrow> error + mat option" where
  "cellGrad m = Inl (NotImplementedError ''Cell Grad is not yet implemented.'')"

definition nodalGrad :: "mesh \<Rightarrow> error + mat option" where
  "nodalGrad m =
     (if isSymmetric m then Inr None
      else Inl (NotImplementedError ''nodalGrad not yet implemented''))"

definition nodalLaplacian :: "mesh \<Rightarrow> error + mat option" where
  "nodalLaplacian m = Inl (NotImplementedError ''nodalLaplacian not yet implemented'')"

text \<open>
  The blocks of \<open>edgeCurl\<close>, named as in the source. In full mode a mesh without an
  azimuthal cell would ask for the row \<open>-1\<close> of an empty matrix, and one without a radial
  cell for an \<open>arange\<close> of step zero.
\<close>

definition dr :: "mesh \<Rightarrow> mat" where
  "dr m = spdiags [replicate (nCx m + 1) (- 1), replicate (nCx m + 1) 1] [- 1, 0]
            (nCx m) (nCx m)"

definition dz :: "mesh \<Rightarrow> mat" where
  "dz m = spdiags [replicate (nCz m + 1) (- 1), replicate (nCz m + 1) 1] [0, 1]
            (nCz m) (nCz m + 1)"

definition ddxz :: "mesh \<Rightarrow> mat" where
  "ddxz m = madd (cols_butlast (ddx (nCy m))) (csr_matrix [1] [nCy m - 1] [0] (nCy m) (nCy m))"

definition wrap_z :: "mesh \<Rightarrow> mat" where
  "wrap_z m =
     csr_matrix (scal (- 1) (ones (nCy m)))
       (arange 0 (prod_list (take 2 (vnC m))) (vnC m ! 0)) (replicate (nCy m) 0)
       (prod_list (take 2 (vnC m))) 1"

definition curl_Cr :: "mesh \<Rightarrow> mat" where
  "curl_Cr m =
     (let Dt_r = kron3 (ddx (nCz m)) (speye (nCy m)) (speye (nCx m));
          Dz_r = kron (ddxz m) (speye (nCx m));
          Dz_r = hstack [spzeros (prod_list (take 2 (vnC m))) 1, Dz_r];
          Dz_r = kron (speye (nCz m)) Dz_r;
          O1 = spzeros (nFx m) (nEx m)
      in hstack [O1, mneg Dt_r, Dz_r])"

definition curl_Ct :: "mesh \<Rightarrow> mat" where
  "curl_Ct m =
     (let Dr_t = kron3 (ddx (nCz m)) (speye (nCy m)) (speye (nCx m));
          O2 = spzeros (nFy m) (nEy m);
          ddxr = ddx (nCx m);
          Ddxr = kron (speye (nCy m)) (cols_from1 ddxr);
          Dz_t = kron (speye (nCz m)) (hstack [wrap_z m, Ddxr])
      in hstack [Dr_t, O2, mneg Dz_t])"

definition curl_Cz :: "mesh \<Rightarrow> mat" where
  "curl_Cz m =
     (let Dr_z = kron3 (speye (nCz m + 1)) (ddxz m) (speye (nCx m));
          ddxt = cols_from1 (ddx (nCx m));
          Dt_z = kron3 (speye (nCz m + 1)) (speye (nCy m)) ddxt;
          O3 = spzeros (nFz m) (nEz m)
      in hstack [mneg Dr_z, Dt_z, O3])"

definition edgeCurl :: "mesh \<Rightarrow> error + mat" where
  "edgeCurl m =
     (let A = area m; E = edge m in
      if isSymmetric m then
        let Dr = kron (identity (nNz m)) (dr m);
            Dz = mneg (kron (dz m) (identity (nCx m)))
        in Inr (mmul (mmul (sdiag (recip A)) (vstack [Dz, Dr])) (sdiag E))
      else if nCy m = 0 then Inl ValueError
      else if vnC m ! 0 = 0 then Inl ZeroDivisionError
      else
        Inr (mmul (mmul (sdiag (recip A)) (vstack [curl_Cr m, curl_Ct m, curl_Cz m]))
               (sdiag E)))"

section \<open>Averaging operators\<close>

definition avR :: "mesh \<Rightarrow> error + mat" where
  "avR m = set_item (cols_from1 (av (vnC m ! 0))) 0 0 1"

definition aveE2CC :: "mesh \<Rightarrow> error + mat" where
  "aveE2CC m =
     (if isSymmetric m then
        (case avR m of
           Inl e \<Rightarrow> Inl e
         | Inr a \<Rightarrow> Inr (kron (av (vnC m ! 2)) a))
      else Inl (NotImplementedError ''wrapping in the averaging is not yet implemented''))"

definition aveE2CCV :: "mesh \<Rightarrow> error + mat" where
  "aveE2CCV m =
     (if isSymmetric m then aveE2CC m
      else Inl (NotImplementedError ''wrapping in the averaging is not yet implemented''))"

definition aveF2CC :: "mesh \<Rightarrow> error + mat" where
  "aveF2CC m =
     (if isSymmetric m then
        (case avR m of
           Inl e \<Rightarrow> Inl e
         | Inr a \<Rightarrow>
             Inr (smul (1 / 2)
                    (hstack [kron (speye (vnC m ! 2)) a,
                             kron (av (vnC m ! 2)) (speye (vnC m ! 0))])))
      else Inl (NotImplementedError ''wrapping in the averaging is not yet implemented''))"

definition aveF2CCV :: "mesh \<Rightarrow> error + mat" where
  "aveF2CCV m =
     (if isSymmetric m then
        (case avR m of
           Inl e \<Rightarrow> Inl e
         | Inr a \<Rightarrow>
             Inr (block_diag [kron (speye (vnC m ! 2)) a,
                              kron (av (vnC m ! 2)) (speye (vnC m ! 0))]))
      else Inl (NotImplementedError ''wrapping in the averaging is not yet implemented''))"

section \<open>Interpolation\<close>

text \<open>
  \<open>getInterpolationMat\<close>. \<open>utils.interpmat\<close> and the \<open>_getInterpolationMat\<close> of the base
  class are not among the source files, so their results are parameters: \<open>Q\<close> is the
  scalar cell-center interpolation matrix \<open>utils.interpmat(loc, ...)\<close> for the points,
  \<open>npts\<close> is \<open>loc.shape[0]\<close>, and \<open>base\<close> is what the base class returns for a location
  type and the flag. With \<open>zerosOutside\<close> set, the vector cell-center branch reads the
  name \<open>indZeros\<close>, which nothing binds.
\<close>

definition getInterpolationMat ::
    "mesh \<Rightarrow> mat \<Rightarrow> (string \<Rightarrow> bool \<Rightarrow> error + mat) \<Rightarrow> nat \<Rightarrow> string \<Rightarrow> bool \<Rightarrow> error + mat" where
  "getInterpolationMat m Q base npts locType zerosOutside =
     (if isSymmetric m \<and> locType \<in> set [''Ex'', ''Ez'', ''Fy'']
      then Inl (PyException (''Symmetric CylMesh does not support '' @ locType
                  @ '' interpolation, as this variable does not exist.''))
      else if locType \<in> set [''CCVx'', ''CCVy'', ''CCVz''] then
        (let Z = spzeros npts (nC m);
             Q' = (if locType = ''CCVx'' then hstack [Q, Z]
                   else if locType = ''CCVy'' then hstack [Q]
                   else hstack [Z, Q])
         in if zerosOutside then Inl (NameError ''indZeros'') else Inr Q')
      else base locType zerosOutside)"

section \<open>Meshes of two and of three axes\<close>

text \<open>
  The constructor also takes two width arrays, radial and azimuthal: a disk mesh, for
  which it prints the warning that a disk mesh has not been tested thoroughly. Such a mesh
  has dimension 2, its count vector \<open>vnC\<close> has two entries and it has no axial cells. A
  mesh object is a disk mesh or a mesh of three axes; the operators above are those of a
  mesh of three axes.
\<close>

datatype cyl = Disk "real list" "real list" | Full mesh

fun dim_of :: "cyl \<Rightarrow> nat" where
  "dim_of (Disk h1 h2) = length [h1, h2]"
| "dim_of (Full m) = dim m"

fun vnC_of :: "cyl \<Rightarrow> nat list" where
  "vnC_of (Disk h1 h2) = [length h1, length h2]"
| "vnC_of (Full m) = vnC m"

fun radial :: "cyl \<Rightarrow> real list" where
  "radial (Disk h1 h2) = h1"
| "radial (Full m) = hx m"

text \<open>Reading \<open>v[i]\<close> from a numpy vector raises IndexError outside its length.\<close>

definition item :: "nat list \<Rightarrow> nat \<Rightarrow> error + nat" where
  "item v i = (if i < length v then Inr (v ! i) else Inl IndexError)"

text \<open>
  \<open>_deflationMatrix\<close> on a disk mesh. The assertion accepts \<open>Fz\<close> and \<open>Ez\<close> only when
  the dimension is 3. \<open>wrap_theta\<close> and \<open>collapse_x\<close> read \<open>vnC[0]\<close> and \<open>vnC[1]\<close> and
  are built without error, but no branch that returns uses them here: the branches for
  \<open>Fx\<close> and \<open>Fy\<close> read \<open>vnC[2]\<close> first. The branches for \<open>Fz\<close> and \<open>Ez\<close>, which the
  assertion keeps out of reach, would read the third entry of \<open>vnF\<close> and the axial cell
  count, which a disk mesh does not have.
\<close>

definition disk_deflationMatrix :: "real list \<Rightarrow> real list \<Rightarrow> string \<Rightarrow> error + mat option" where
  "disk_deflationMatrix h1 h2 location =
     (if location \<notin> set ([''N'', ''F'', ''Fx'', ''Fy'', ''E'', ''Ex'', ''Ey'']
                           @ (if dim_of (Disk h1 h2) = 3 then [''Fz'', ''Ez''] else []))
      then Inl (AssertionError [])
      else if location = ''Fx'' then
        (case item (vnC_of (Disk h1 h2)) 2 of
           Inl e \<Rightarrow> Inl e
         | Inr n2 \<Rightarrow> Inr (Some (kron3 (speye n2) (speye (vnC_of (Disk h1 h2) ! 1))
                                 (csr_matrix (replicate (vnC_of (Disk h1 h2) ! 0) 1)
                                    (arange 1 (vnC_of (Disk h1 h2) ! 0 + 1) 1)
                                    (arange 0 (vnC_of (Disk h1 h2) ! 0) 1)
                                    (vnC_of (Disk h1 h2) ! 0 + 1) (vnC_of (Disk h1 h2) ! 0)))))
      else if location = ''Fy'' then
        (case item (vnC_of (Disk h1 h2)) 2 of
           Inl e \<Rightarrow> Inl e
         | Inr n2 \<Rightarrow> Inr (Some (kron3 (speye n2)
                                 (csr_matrix (replicate (vnC_of (Disk h1 h2) ! 1 + 1) 1)
                                    (arange 0 (vnC_of (Disk h1 h2) ! 1 + 1) 1)
                                    (arange 0 (vnC_of (Disk h1 h2) ! 1) 1 @ [0])
                                    (vnC_of (Disk h1 h2) ! 1 + 1) (vnC_of (Disk h1 h2) ! 1))
                                 (speye (vnC_of (Disk h1 h2) ! 0)))))
      else if location = ''Fz'' then Inl IndexError
      else if location = ''Ex'' then Inr None
      else if location = ''Ey'' then Inr None
      else if location = ''Ez'' then Inl (TypeError ''NoneType'')
      else Inr None)"

text \<open>\<open>_deflationMatrix\<close> on a mesh object of either kind.\<close>

fun deflationMatrix_of :: "cyl \<Rightarrow> string \<Rightarrow> error + mat option" where
  "deflationMatrix_of (Disk h1 h2) location = disk_deflationMatrix h1 h2 location"
| "deflationMatrix_of (Full m) location = deflationMatrix m location"

section \<open>Example meshes\<close>

text \<open>
  The full 3-D mesh of the spec's example scenario (5 x 4 x 3 cells), a symmetric mesh
  and a full mesh of 2 cells per axis (one azimuthal cell in the symmetric one).
\<close>

definition mesh7 :: mesh where
  "mesh7 = \<lparr>hx = replicate 5 20, hy = replicate 4 (2 * pi / 4), hz = replicate 3 20,
             x0 = [0, 0, 0], cartesianOrigin = [0, 0, 0]\<rparr>"

definition sym_mesh :: mesh where
  "sym_mesh = \<lparr>hx = [1, 1], hy = [2 * pi], hz = [1, 1], x0 = [0, 0, 0],
                cartesianOrigin = [0, 0, 0]\<rparr>"

definition full_mesh :: mesh where
  "full_mesh = \<lparr>hx = [1, 1], hy = [pi, pi], hz = [1, 1], x0 = [0, 0, 0],
                 cartesianOrigin = [0, 0, 0]\<rparr>"

text \<open>The symmetric mesh of a single cell: one radial shell, one axial layer.\<close>

definition shell_mesh :: mesh where
  "shell_mesh = \<lparr>hx = [1], hy = [2 * pi], hz = [1], x0 = [0, 0, 0],
                  cartesianOrigin = [0, 0, 0]\<rparr>"

text \<open>
  An interpolation matrix for one point on a mesh of four cells, and a stand-in for the
  interpolation of the base class.
\<close>

definition Q_example :: mat where
  "Q_example = mk 1 4 (\<lambda>i j. 1 / 4)"

definition base_example :: "string \<Rightarrow> bool \<Rightarrow> error + mat" where
  "base_example locType zerosOutside = Inr (spzeros 1 4)"

text \<open>
  A disk mesh of two radial cells and two azimuthal cells, whose azimuthal widths sum to
  \<open>2 * pi\<close> as the constructor asserts.
\<close>

definition disk_mesh :: cyl where
  "disk_mesh = Disk [1, 1] [pi, pi]"

section \<open>Shapes\<close>

lemma nr_mk [simp]: "nr (mk r c f) = r"
  and nc_mk [simp]: "nc (mk r c f) = c"
  and ent_mk [simp]: "ent (mk r c f) i j = (if i < r \<and> j < c then f i j else 0)"
  by (simp_all add: mk_def)

lemma mk_cong:
  "r = r' \<Longrightarrow> c = c' \<Longrightarrow> (\<And>i j. i < r \<Longrightarrow> j < c \<Longrightarrow> f i j = g i j) \<Longrightarrow> mk r c f = mk r' c' g"
  by (auto simp: mk_def fun_eq_iff)

lemma shape_simps [simp]:
  "nr (mmul A B) = nr A" "nc (mmul A B) = nc B"
  "nr (mneg A) = nr A" "nc (mneg A) = nc A"
  "nr (smul a A) = nr A" "nc (smul a A) = nc A"
  "nr (madd A B) = nr A" "nc (madd A B) = nc A"
  "nr (kron A B) = nr A * nr B" "nc (kron A B) = nc A * nc B"
  "nr (hcat A B) = nr A" "nc (hcat A B) = nc A + nc B"
  "nr (vcat A B) = nr A + nr B" "nc (vcat A B) = nc A"
  "nr (bdiag A B) = nr A + nr B" "nc (bdiag A B) = nc A + nc B"
  "nr (cols_from1 A) = nr A" "nc (cols_from1 A) = nc A - 1"
  "nr (cols_butlast A) = nr A" "nc (cols_butlast A) = nc A - 1"
  "nr (csr_matrix d rs cs r c) = r" "nc (csr_matrix d rs cs r c) = c"
  "nr (spdiags dd ds r c) = r" "nc (spdiags dd ds r c) = c"
  "nr (identity n) = n" "nc (identity n) = n"
  "nr (speye n) = n" "nc (speye n) = n"
  "nr (spzeros r c) = r" "nc (spzeros r c) = c"
  "nr (sdiag v) = length v" "nc (sdiag v) = length v"
  "nr (kron3 A B C) = nr A * nr B * nr C" "nc (kron3 A B C) = nc A * nc B * nc C"
  "nr (ddx n) = n" "nc (ddx n) = n + 1"
  "nr (av n) = n" "nc (av n) = n + 1"
  by (simp_all add: mmul_def mneg_def smul_def madd_def kron_def hcat_def vcat_def bdiag_def
      cols_from1_def cols_butlast_def csr_matrix_def spdiags_def identity_def speye_def
      spzeros_def sdiag_def kron3_def ddx_def av_def)

lemma length_kronv [simp]: "length (kronv a b) = length a * length b"
  by (induction a) (simp_all add: kronv_def)

lemma length_cumsum_from [simp]: "length (cumsum_from a xs) = length xs"
  by (induction xs arbitrary: a) simp_all

lemma length_vec_simps [simp]:
  "length (cumsum xs) = length xs" "length (ones n) = n" "length (sq v) = length v"
  "length (vsub a b) = min (length a) (length b)" "length (scal c v) = length v"
  "length (recip v) = length v"
  by (simp_all add: cumsum_def ones_def sq_def vsub_def scal_def recip_def)

section \<open>The example meshes are meshes the constructor builds\<close>

lemma counts7: "nCx mesh7 = 5" "nCy mesh7 = 4" "nCz mesh7 = 3"
  by (simp_all add: mesh7_def nCx_def nCy_def nCz_def)

lemma sym_mesh_counts:
  "nCx sym_mesh = 2" "nCy sym_mesh = 1" "nCz sym_mesh = 2" "isSymmetric sym_mesh"
  by (simp_all add: sym_mesh_def nCx_def nCy_def nCz_def isSymmetric_def)

lemma full_mesh_counts:
  "nCx full_mesh = 2" "nCy full_mesh = 2" "nCz full_mesh = 2" "\<not> isSymmetric full_mesh"
  by (simp_all add: full_mesh_def nCx_def nCy_def nCz_def isSymmetric_def)

lemma sym_mesh_init: "init ([1, 1], [2 * pi], [1, 1]) [0, 0, 0] None = Inr sym_mesh"
  by (simp add: init_def sym_mesh_def dim_def numeral_eq_Suc)

lemma full_mesh_init: "init ([1, 1], [pi, pi], [1, 1]) [0, 0, 0] None = Inr full_mesh"
  by (simp add: init_def full_mesh_def dim_def numeral_eq_Suc)

lemma sym_mesh_valid: "valid sym_mesh"
  by (simp add: valid_def positive_def sym_mesh_def)

lemma full_mesh_valid: "valid full_mesh"
  by (simp add: valid_def positive_def full_mesh_def)

section \<open>The keep-mask of the z-edge deflation\<close>

lemma valid_hy_nonempty: "valid m \<Longrightarrow> hy m \<noteq> []"
proof
  assume v: "valid m" and e: "hy m = []"
  from v e have "\<bar>0 - 2 * pi\<bar> < 1 / 10 ^ 10" by (simp add: valid_def)
  with pi_ge_two show False by simp
qed

lemma arange_multiples:
  "0 < s \<Longrightarrow> arange s (s * n) s = map (\<lambda>k. s * (k + 1)) [0..<n - 1]"
proof -
  assume s: "0 < s"
  have "(s * n - s + s - 1) div s = n - 1"
  proof (cases n)
    case 0 then show ?thesis using s by simp
  next
    case (Suc k)
    have "(s * Suc k - s + s - 1) = s * k + (s - 1)" using s by simp
    moreover have "(s * k + (s - 1)) div s = k" using s
      by (metis add_cancel_left_right diff_less div_less div_mult_self4
          less_numeral_extra(1) not_gr_zero)
    ultimately show ?thesis using Suc by simp
  qed
  then show ?thesis by (simp add: arange_def algebra_simps)
qed

lemma length_fold_unset [simp]:
  "length (fold (\<lambda>i k. k[i := False]) xs ys) = length ys"
  by (induction xs arbitrary: ys) simp_all

lemma unset_nth: "(ys[a := False] ! j) = (ys ! j \<and> (j \<noteq> a \<or> \<not> j < length ys))"
  by (cases "a < length ys") (auto simp: nth_list_update list_update_beyond)

lemma nth_fold_unset:
  "j < length ys \<Longrightarrow> fold (\<lambda>i k. k[i := False]) xs ys ! j = (ys ! j \<and> j \<notin> set xs)"
  by (induction xs arbitrary: ys) (auto simp: unset_nth)

lemma count_kept:
  assumes "distinct xs" and "\<forall>x \<in> set xs. x < n"
  shows "length (filter (\<lambda>i. fold (\<lambda>i k. k[i := False]) xs (replicate n True) ! i) [0..<n])
         = n - length xs"
proof -
  have "filter (\<lambda>i. fold (\<lambda>i k. k[i := False]) xs (replicate n True) ! i) [0..<n]
        = filter (\<lambda>i. i \<notin> set xs) [0..<n]"
    by (rule filter_cong) (simp_all add: nth_fold_unset)
  moreover have "length (filter (\<lambda>i. i \<notin> set xs) [0..<n]) = card ({0..<n} - set xs)"
  proof -
    have "set (filter (\<lambda>i. i \<notin> set xs) [0..<n]) = {0..<n} - set xs" by auto
    moreover have "distinct (filter (\<lambda>i. i \<notin> set xs) [0..<n])" by simp
    ultimately show ?thesis by (metis distinct_card)
  qed
  moreover have "card ({0..<n} - set xs) = n - length xs"
  proof -
    have "set xs \<subseteq> {0..<n}" using assms(2) by auto
    then have "card ({0..<n} - set xs) = card {0..<n} - card (set xs)"
      by (simp add: card_Diff_subset)
    then show ?thesis using assms(1) by (simp add: distinct_card)
  qed
  ultimately show ?thesis by simp
qed

lemma keep_count:
  assumes "\<not> isSymmetric m"
  shows "length (filter (\<lambda>i. keepme m ! i) [0..<nNx m * nNy m]) = nNx m * nNy m - (nNy m - 1)"
proof -
  let ?s = "nNx m"
  have s: "0 < ?s" using assms by (simp add: nNx_def)
  have r: "removeme m = map (\<lambda>k. ?s * (k + 1)) [0..<nNy m - 1]"
    using arange_multiples [OF s, of "nNy m"] by (simp add: removeme_def vnN_def)
  have d: "distinct (removeme m)"
    unfolding r using s by (simp add: distinct_map inj_on_def)
  have b: "\<forall>x \<in> set (removeme m). x < nNx m * nNy m"
  proof
    fix x assume "x \<in> set (removeme m)"
    then obtain k where k: "k < nNy m - 1" and x: "x = nNx m * (k + 1)"
      unfolding r by auto
    from k have "k + 1 < nNy m" by simp
    with s have "nNx m * (k + 1) < nNx m * nNy m" by (rule mult_less_mono2 [rotated])
    then show "x < nNx m * nNy m" unfolding x .
  qed
  have "length (removeme m) = nNy m - 1" by (simp add: r)
  with count_kept [OF d b] show ?thesis by (simp add: keepme_def vnN_def)
qed

section \<open>Sums of shell volumes\<close>

lemma sum_list_kronv: "sum_list (kronv a b) = sum_list a * sum_list b"
  by (induction a) (simp_all add: kronv_def sum_list_const_mult algebra_simps)

lemma sum_list_scal: "sum_list (scal c v) = c * sum_list v"
  by (simp add: scal_def sum_list_const_mult)

lemma last_cumsum_from: "xs \<noteq> [] \<Longrightarrow> last (cumsum_from a xs) = a + sum_list xs"
proof (induction xs arbitrary: a)
  case Nil then show ?case by simp
next
  case (Cons x xs)
  then show ?case by (cases xs) (simp_all add: algebra_simps)
qed

lemma shells_drop_last:
  "vsub (sq C) (sq (butlast (b # C))) = vsub (sq C) (sq (b # butlast C))"
  by (cases C) (simp_all add: vsub_def sq_def)

lemma sum_shells:
  "sum_list (vsub (sq (cumsum_from a xs)) (sq (a # butlast (cumsum_from a xs))))
   = (a + sum_list xs) ^ 2 - a ^ 2"
proof (induction xs arbitrary: a)
  case Nil
  then show ?case by (simp add: vsub_def sq_def)
next
  case (Cons x xs)
  have "vsub (sq (cumsum_from a (x # xs))) (sq (a # butlast (cumsum_from a (x # xs))))
        = ((a + x) ^ 2 - a ^ 2)
          # vsub (sq (cumsum_from (a + x) xs)) (sq (butlast ((a + x) # cumsum_from (a + x) xs)))"
    by (simp add: vsub_def sq_def)
  also have "\<dots> = ((a + x) ^ 2 - a ^ 2)
          # vsub (sq (cumsum_from (a + x) xs)) (sq ((a + x) # butlast (cumsum_from (a + x) xs)))"
    by (simp only: shells_drop_last)
  finally show ?case
    by (simp add: Cons.IH algebra_simps)
qed

lemma sum_vol_symmetric:
  "isSymmetric m \<Longrightarrow> sum_list (vol m) = pi * (sum_list (hx m)) ^ 2 * sum_list (hz m)"
  using sum_shells [of 0 "hx m"]
  by (simp add: vol_def vectorNx_def cumsum_def sum_list_kronv sum_list_scal)

lemma sum_vol_full:
  assumes "\<not> isSymmetric m"
  shows "sum_list (vol m) = (sum_list (hy m) / 2) * (sum_list (hx m)) ^ 2 * sum_list (hz m)"
proof -
  let ?C = "cumsum_from 0 (hx m)"
  have v: "vectorNx m = 0 # ?C"
    using assms by (simp add: vectorNx_def cumsum_def)
  have "vol m = kronv (hz m) (kronv (hy m) (scal (1 / 2) (vsub (sq ?C) (sq (butlast (0 # ?C))))))"
    using assms by (simp only: vol_def v if_False list.sel)
  also have "\<dots> = kronv (hz m) (kronv (hy m) (scal (1 / 2) (vsub (sq ?C) (sq (0 # butlast ?C)))))"
    by (simp only: shells_drop_last)
  finally show ?thesis
    using sum_shells [of 0 "hx m"]
    by (simp add: sum_list_kronv sum_list_scal)
qed

lemma vectorNx_ends:
  assumes "hx m \<noteq> []"
  shows "last (vectorNx m) = sum_list (hx m)"
    and "\<not> isSymmetric m \<Longrightarrow> hd (vectorNx m) = 0"
    and "isSymmetric m \<Longrightarrow> hd (vectorNx m) = hd (hx m)"
proof -
  show "last (vectorNx m) = sum_list (hx m)"
    using assms last_cumsum_from [of "hx m" 0] by (cases "hx m") (auto simp: vectorNx_def cumsum_def)
  show "\<not> isSymmetric m \<Longrightarrow> hd (vectorNx m) = 0"
    by (simp add: vectorNx_def cumsum_def)
  show "isSymmetric m \<Longrightarrow> hd (vectorNx m) = hd (hx m)"
    using assms by (cases "hx m") (simp_all add: vectorNx_def cumsum_def)
qed

lemma shell_mesh_init: "init ([1], [2 * pi], [1]) [0, 0, 0] None = Inr shell_mesh"
  by (simp add: init_def shell_mesh_def dim_def numeral_eq_Suc)

lemma shell_mesh_valid: "valid shell_mesh"
  by (simp add: valid_def positive_def shell_mesh_def)

section \<open>Entries of stacked blocks\<close>

lemma ent_hcat: "ent (hcat A B) i j = (if i < nr A \<and> j < nc A + nc B then (if j < nc A then ent A i j else ent B i (j - nc A)) else 0)"
  by (simp add: hcat_def)

lemma sym_mesh_nC: "nC sym_mesh = 4"
  by (simp add: nC_def vnC_def sym_mesh_counts)

section \<open>Counts of a symmetric mesh\<close>

lemma avR_ok: "hx m \<noteq> [] \<Longrightarrow>
  avR m = Inr (mk (nCx m) (nCx m) (\<lambda>i j. if i = 0 \<and> j = 0 then 1 else ent (cols_from1 (av (nCx m))) i j))"
proof -
  assume "hx m \<noteq> []"
  then have "0 < nCx m" by (simp add: nCx_def)
  then show ?thesis by (simp add: avR_def set_item_def vnC_def)
qed

lemma sym_counts:
  assumes "isSymmetric m"
  shows "nC m = nCx m * nCz m" "nFx m = nCx m * nCz m" "nFz m = nCx m * (nCz m + 1)"
    "nEy m = nCx m * (nCz m + 1)" "nCy m = 1" "nNx m = nCx m" "nNy m = 0" "nFy m = 0" "nEx m = 0" "nEz m = 0"
  using assms
  by (simp_all add: nC_def vnC_def nFx_def vnFx_def nFz_def vnFz_def nEy_def vnEy_def nNx_def
      nNz_def isSymmetric_def nNy_def nFy_def vnFy_def nEx_def vnEx_def nEz_def vnEz_def)

section \<open>Kronecker products\<close>

lemma sum_div_mod:
  fixes f :: "nat \<Rightarrow> nat \<Rightarrow> real"
  shows "(\<Sum>k<m * n. f (k div n) (k mod n)) = (\<Sum>a<m. \<Sum>b<n. f a b)"
proof -
  have "(\<Sum>a<m. \<Sum>b<n. f a b) = (\<Sum>a<m. sum (\<lambda>k. f (k div n) (k mod n)) {a * n..<a * n + n})"
  proof (rule sum.cong [OF refl])
    fix a
    have "sum (\<lambda>k. f (k div n) (k mod n)) {a * n..<a * n + n}
          = sum (\<lambda>b. f ((b + a * n) div n) ((b + a * n) mod n)) {0..<n}"
      using sum.shift_bounds_nat_ivl [of "\<lambda>k. f (k div n) (k mod n)" 0 "a * n" n]
      by (simp add: add.commute)
    also have "\<dots> = sum (\<lambda>b. f a b) {0..<n}"
      by (rule sum.cong) auto
    finally show "(\<Sum>b<n. f a b) = sum (\<lambda>k. f (k div n) (k mod n)) {a * n..<a * n + n}"
      by (simp add: lessThan_atLeast0)
  qed
  also have "\<dots> = (\<Sum>k<m * n. f (k div n) (k mod n))"
    by (rule sum.nat_group)
  finally show ?thesis by simp
qed

lemma div_less_rows: "i < a * b \<Longrightarrow> i div b < (a::nat)"
  by (simp add: less_mult_imp_div_less)

lemma mod_less_rows: "i < a * b \<Longrightarrow> i mod b < (b::nat)"
  by (cases "b = 0") simp_all

lemma mmul_kron:
  assumes "nc A = nr C" and "nc B = nr D"
  shows "mmul (kron A B) (kron C D) = kron (mmul A C) (mmul B D)"
  unfolding mmul_def [of "kron A B"] kron_def [of "mmul A C"]
proof (rule mk_cong)
  show "nr (kron A B) = nr (mmul A C) * nr (mmul B D)" by simp
  show "nc (kron C D) = nc (mmul A C) * nc (mmul B D)" by simp
  fix i j
  assume i: "i < nr (kron A B)" and j: "j < nc (kron C D)"
  then have i': "i < nr A * nr B" and j': "j < nc C * nc D" by simp_all
  let ?i1 = "i div nr B" and ?i2 = "i mod nr B" and ?j1 = "j div nc D" and ?j2 = "j mod nc D"
  have r: "?i1 < nr A" "?i2 < nr B" "?j1 < nc C" "?j2 < nc D"
    using i' j' by (simp_all add: div_less_rows mod_less_rows)
  have "(\<Sum>k<nc (kron A B). ent (kron A B) i k * ent (kron C D) k j)
        = (\<Sum>k<nc A * nc B. (ent A ?i1 (k div nc B) * ent C (k div nc B) ?j1)
                              * (ent B ?i2 (k mod nc B) * ent D (k mod nc B) ?j2))"
    using i' j' assms by (auto simp: kron_def intro!: sum.cong)
  also have "\<dots> = (\<Sum>a<nc A. \<Sum>b<nc B. (ent A ?i1 a * ent C a ?j1) * (ent B ?i2 b * ent D b ?j2))"
    by (rule sum_div_mod)
  also have "\<dots> = (\<Sum>a<nc A. ent A ?i1 a * ent C a ?j1) * (\<Sum>b<nc B. ent B ?i2 b * ent D b ?j2)"
    by (simp add: sum_product)
  also have "\<dots> = ent (mmul A C) (i div nr (mmul B D)) (j div nc (mmul B D))
                   * ent (mmul B D) (i mod nr (mmul B D)) (j mod nc (mmul B D))"
    using r by (simp add: mmul_def)
  finally show "(\<Sum>k<nc (kron A B). ent (kron A B) i k * ent (kron C D) k j)
        = ent (mmul A C) (i div nr (mmul B D)) (j div nc (mmul B D))
          * ent (mmul B D) (i mod nr (mmul B D)) (j mod nc (mmul B D))" .
qed

lemma kron_assoc: "kron (kron A B) C = kron A (kron B C)"
  unfolding kron_def [of "kron A B" C] kron_def [of A "kron B C"]
proof (rule mk_cong)
  show "nr (kron A B) * nr C = nr A * nr (kron B C)" by (simp add: mult.assoc)
  show "nc (kron A B) * nc C = nc A * nc (kron B C)" by (simp add: mult.assoc)
  fix i j
  assume "i < nr (kron A B) * nr C" and "j < nc (kron A B) * nc C"
  then have i: "i < nr A * nr B * nr C" and j: "j < nc A * nc B * nc C" by simp_all
  have rp: "0 < nr C" "0 < nr B" "0 < nc C" "0 < nc B"
    using i j by (auto intro: Nat.gr0I)
  have i1: "i div nr C < nr A * nr B" using i by (simp add: div_less_rows)
  have j1: "j div nc C < nc A * nc B" using j by (simp add: div_less_rows)
  have i2: "i mod (nr B * nr C) < nr B * nr C" using rp by simp
  have j2: "j mod (nc B * nc C) < nc B * nc C" using rp by simp
  have d: "i div nr C div nr B = i div (nr B * nr C)" "j div nc C div nc B = j div (nc B * nc C)"
    using div_mult2_eq [of i "nr C" "nr B"] div_mult2_eq [of j "nc C" "nc B"]
    by (simp_all add: mult.commute)
  have m1: "i div nr C mod nr B = i mod (nr B * nr C) div nr C"
    "j div nc C mod nc B = j mod (nc B * nc C) div nc C"
    using rp mod_mult2_eq [of i "nr C" "nr B"] mod_mult2_eq [of j "nc C" "nc B"]
    by (simp_all add: mult.commute)
  have m2: "i mod nr C = i mod (nr B * nr C) mod nr C" "j mod nc C = j mod (nc B * nc C) mod nc C"
    by (simp_all add: mod_mult_self1 mod_mod_cancel)
  have "ent (kron A B) (i div nr C) (j div nc C)
        = ent A (i div (nr B * nr C)) (j div (nc B * nc C))
          * ent B (i mod (nr B * nr C) div nr C) (j mod (nc B * nc C) div nc C)"
    using i1 j1 by (simp add: kron_def d m1)
  moreover have "ent (kron B C) (i mod (nr B * nr C)) (j mod (nc B * nc C))
        = ent B (i mod (nr B * nr C) div nr C) (j mod (nc B * nc C) div nc C)
          * ent C (i mod nr C) (j mod nc C)"
    using i2 j2 by (simp add: kron_def m2 [symmetric])
  ultimately show "ent (kron A B) (i div nr C) (j div nc C) * ent C (i mod nr C) (j mod nc C)
        = ent A (i div nr (kron B C)) (j div nc (kron B C))
          * ent (kron B C) (i mod nr (kron B C)) (j mod nc (kron B C))"
    by simp
qed

section \<open>Identities and stacked blocks\<close>

lemma normal_mk [simp]: "normal (mk r c f)"
  by (auto simp: normal_def mk_def fun_eq_iff)

lemma normal_simps [simp]:
  "normal (mmul A B)" "normal (mneg A)" "normal (smul a A)" "normal (madd A B)"
  "normal (kron A B)" "normal (hcat A B)" "normal (vcat A B)" "normal (bdiag A B)"
  "normal (cols_from1 A)" "normal (cols_butlast A)" "normal (csr_matrix d rs cs r c)"
  "normal (spdiags dd ds r c)" "normal (identity n)" "normal (speye n)" "normal (spzeros r c)"
  "normal (sdiag v)" "normal (kron3 A B C)" "normal (ddx n)" "normal (av n)"
  by (simp_all add: mmul_def mneg_def smul_def madd_def kron_def hcat_def vcat_def bdiag_def
      cols_from1_def cols_butlast_def csr_matrix_def spdiags_def identity_def speye_def
      spzeros_def sdiag_def kron3_def ddx_def av_def)

lemma normal_eqI:
  assumes "normal A" and "normal B" and "nr A = nr B" and "nc A = nc B"
    and "\<And>i j. i < nr A \<Longrightarrow> j < nc A \<Longrightarrow> ent A i j = ent B i j"
  shows "A = B"
proof -
  have "mk (nr A) (nc A) (ent A) = mk (nr B) (nc B) (ent B)"
    by (rule mk_cong) (use assms in simp_all)
  with assms(1,2) show ?thesis by (simp add: normal_def)
qed

lemma sum_pick:
  fixes g :: "nat \<Rightarrow> real"
  shows "(\<Sum>k<n. g k * (if k = i then 1 else 0)) = (if i < n then g i else 0)"
proof -
  have "(\<Sum>k<n. g k * (if k = i then 1 else 0)) = (\<Sum>k<n. if k = i then g k else 0)"
    by (rule sum.cong) simp_all
  then show ?thesis by (simp add: sum.delta)
qed

lemma sum_pick':
  fixes g :: "nat \<Rightarrow> real"
  shows "(\<Sum>k<n. (if i = k then 1 else 0) * g k) = (if i < n then g i else 0)"
proof -
  have "(\<Sum>k<n. (if i = k then 1 else 0) * g k) = (\<Sum>k<n. if i = k then g k else 0)"
    by (rule sum.cong) simp_all
  then show ?thesis by (simp add: sum.delta')
qed

lemma identity_speye: "identity n = speye n"
  by (simp add: identity_def speye_def)

lemma mmul_speye_left: "normal A \<Longrightarrow> nr A = n \<Longrightarrow> mmul (speye n) A = A"
proof (rule normal_eqI)
  fix i j assume "normal A" "nr A = n" "i < nr (mmul (speye n) A)" "j < nc (mmul (speye n) A)"
  then have "i < n" "j < nc A" by simp_all
  then have "ent (mmul (speye n) A) i j = (\<Sum>k<n. (if i = k then 1 else 0) * ent A k j)"
    by (auto simp: mmul_def speye_def intro!: sum.cong)
  then show "ent (mmul (speye n) A) i j = ent A i j"
    using \<open>i < n\<close> by (simp add: sum_pick')
qed simp_all

lemma mmul_speye_right: "normal A \<Longrightarrow> nc A = n \<Longrightarrow> mmul A (speye n) = A"
proof (rule normal_eqI)
  fix i j assume "normal A" "nc A = n" "i < nr (mmul A (speye n))" "j < nc (mmul A (speye n))"
  then have "i < nr A" "j < n" "nc A = n" by simp_all
  then have "ent (mmul A (speye n)) i j = (\<Sum>k<n. ent A i k * (if k = j then 1 else 0))"
    by (auto simp: mmul_def speye_def intro!: sum.cong)
  then show "ent (mmul A (speye n)) i j = ent A i j"
    using \<open>j < n\<close> by (simp add: sum_pick)
qed simp_all

lemma kron_speye_speye: "kron (speye a) (speye b) = speye (a * b)"
proof (rule normal_eqI)
  fix i j assume "i < nr (kron (speye a) (speye b))" "j < nc (kron (speye a) (speye b))"
  then have i: "i < a * b" and j: "j < a * b" by simp_all
  then have b: "0 < b" by (auto intro: Nat.gr0I)
  have e: "(i = j) = (i div b = j div b \<and> i mod b = j mod b)"
    by (metis div_mult_mod_eq)
  have "ent (kron (speye a) (speye b)) i j
        = (if i div b = j div b \<and> i mod b = j mod b then 1 else 0)"
    using i j b by (simp add: kron_def speye_def div_less_rows)
  also have "\<dots> = ent (speye (a * b)) i j"
    using i j by (simp only: e [symmetric] speye_def ent_mk) simp
  finally show "ent (kron (speye a) (speye b)) i j = ent (speye (a * b)) i j" .
qed simp_all

lemma sum_split:
  fixes g :: "nat \<Rightarrow> real"
  shows "(\<Sum>k<a + b. g k) = (\<Sum>k<a. g k) + (\<Sum>k<b. g (a + k))"
  by (induction b) (simp_all add: add.assoc [symmetric])

lemma mmul_hcat_vcat:
  assumes "nc A = nr X" and "nc B = nr Y" and "nr A = nr B" and "nc X = nc Y"
  shows "mmul (hcat A B) (vcat X Y) = madd (mmul A X) (mmul B Y)"
proof (rule normal_eqI)
  fix i j assume "i < nr (mmul (hcat A B) (vcat X Y))" "j < nc (mmul (hcat A B) (vcat X Y))"
  then have i: "i < nr A" and j: "j < nc X" by simp_all
  have "(\<Sum>k<nc A + nc B. ent (hcat A B) i k * ent (vcat X Y) k j)
        = (\<Sum>k<nc A. ent (hcat A B) i k * ent (vcat X Y) k j)
          + (\<Sum>k<nc B. ent (hcat A B) i (nc A + k) * ent (vcat X Y) (nc A + k) j)"
    by (rule sum_split)
  also have "(\<Sum>k<nc A. ent (hcat A B) i k * ent (vcat X Y) k j) = (\<Sum>k<nc A. ent A i k * ent X k j)"
    using i j assms by (auto simp: hcat_def vcat_def intro!: sum.cong)
  also have "(\<Sum>k<nc B. ent (hcat A B) i (nc A + k) * ent (vcat X Y) (nc A + k) j)
             = (\<Sum>k<nc B. ent B i k * ent Y k j)"
  proof (rule sum.cong [OF refl])
    fix k assume "k \<in> {..<nc B}"
    then have k: "k < nc B" by simp
    show "ent (hcat A B) i (nc A + k) * ent (vcat X Y) (nc A + k) j = ent B i k * ent Y k j"
      using i j k assms by (simp add: hcat_def vcat_def)
  qed
  finally show "ent (mmul (hcat A B) (vcat X Y)) i j = ent (madd (mmul A X) (mmul B Y)) i j"
    using i j assms by (simp add: mmul_def madd_def)
qed simp_all

section \<open>Products with stacked and scaled blocks\<close>

lemma mmul_hcat_right:
  assumes "nc A = nr X"
  shows "mmul A (hcat X Y) = hcat (mmul A X) (mmul A Y)"
proof (rule normal_eqI)
  fix i j assume "i < nr (mmul A (hcat X Y))" "j < nc (mmul A (hcat X Y))"
  then have i: "i < nr A" and j: "j < nc X + nc Y" by simp_all
  show "ent (mmul A (hcat X Y)) i j = ent (hcat (mmul A X) (mmul A Y)) i j"
    using i j assms by (auto simp: mmul_def hcat_def intro!: sum.cong)
qed simp_all

lemma mmul_mneg_right:
  assumes "nc A = nr X"
  shows "mmul A (mneg X) = mneg (mmul A X)"
proof (rule normal_eqI)
  fix i j assume "i < nr (mmul A (mneg X))" "j < nc (mmul A (mneg X))"
  then have i: "i < nr A" and j: "j < nc X" by simp_all
  have "(\<Sum>k<nc A. ent A i k * ent (mneg X) k j) = (\<Sum>k<nc A. - (ent A i k * ent X k j))"
    using j assms by (auto simp: mneg_def intro!: sum.cong)
  then show "ent (mmul A (mneg X)) i j = ent (mneg (mmul A X)) i j"
    using i j by (simp add: mmul_def mneg_def sum_negf)
qed simp_all

lemma mmul_spzeros_right: "mmul A (spzeros r c) = spzeros (nr A) c"
  by (rule normal_eqI) (simp_all add: mmul_def spzeros_def)

lemma kron_spzeros_left: "kron (spzeros r c) X = spzeros (r * nr X) (c * nc X)"
  by (rule normal_eqI) (simp_all add: kron_def spzeros_def div_less_rows)

lemma cancel2:
  assumes "normal W"
  shows "madd (mneg W) W = spzeros (nr W) (nc W)"
  by (rule normal_eqI) (simp_all add: madd_def mneg_def spzeros_def)

lemma cancel3:
  assumes "nr X = n" and "nr Y = n" and "nr W = n"
  shows "madd (madd (hcat (hcat (spzeros n (nc X)) (mneg Y)) W)
                    (hcat (hcat X (spzeros n (nc Y))) (mneg W)))
              (hcat (hcat (mneg X) Y) (spzeros n (nc W)))
         = spzeros n (nc X + nc Y + nc W)"
proof (rule normal_eqI)
  fix i j
  assume "i < nr (madd (madd (hcat (hcat (spzeros n (nc X)) (mneg Y)) W)
                    (hcat (hcat X (spzeros n (nc Y))) (mneg W)))
              (hcat (hcat (mneg X) Y) (spzeros n (nc W))))"
    and "j < nc (madd (madd (hcat (hcat (spzeros n (nc X)) (mneg Y)) W)
                    (hcat (hcat X (spzeros n (nc Y))) (mneg W)))
              (hcat (hcat (mneg X) Y) (spzeros n (nc W))))"
  then have i: "i < n" and j: "j < nc X + nc Y + nc W" by simp_all
  consider "j < nc X" | "nc X \<le> j" "j < nc X + nc Y" | "nc X + nc Y \<le> j"
    by linarith
  then show "ent (madd (madd (hcat (hcat (spzeros n (nc X)) (mneg Y)) W)
                    (hcat (hcat X (spzeros n (nc Y))) (mneg W)))
              (hcat (hcat (mneg X) Y) (spzeros n (nc W)))) i j
         = ent (spzeros n (nc X + nc Y + nc W)) i j"
  proof cases
    case 1
    then show ?thesis using i j assms
      by (simp add: madd_def hcat_def mneg_def spzeros_def)
  next
    case 2
    then have "j - nc X < nc Y" by linarith
    with 2 show ?thesis using i j assms
      by (simp add: madd_def hcat_def mneg_def spzeros_def)
  next
    case 3
    then have "j - (nc X + nc Y) < nc W" using j by linarith
    with 3 show ?thesis using i j assms
      by (simp add: madd_def hcat_def mneg_def spzeros_def)
  qed
qed simp_all

lemma sum_diag_left:
  fixes g :: "nat \<Rightarrow> real"
  shows "(\<Sum>k<n. (if i = k then c else 0) * g k) = (if i < n then c * g i else 0)"
proof -
  have "(\<Sum>k<n. (if i = k then c else 0) * g k) = (\<Sum>k<n. if i = k then c * g k else 0)"
    by (rule sum.cong) simp_all
  then show ?thesis by (simp add: sum.delta')
qed

lemma scale_eq:
  assumes "length u = nr M" and "length v = nc M"
  shows "mmul (mmul (sdiag u) M) (sdiag v) = scale u M v"
  unfolding scale_def
proof (rule normal_eqI)
  fix i j assume "i < nr (mmul (mmul (sdiag u) M) (sdiag v))" "j < nc (mmul (mmul (sdiag u) M) (sdiag v))"
  then have i: "i < nr M" and j: "j < nc M" using assms by simp_all
  have a: "ent (mmul (sdiag u) M) i k = u ! i * ent M i k" if "k < nc M" for k
  proof -
    have "ent (mmul (sdiag u) M) i k = (\<Sum>l<nr M. (if i = l then u ! i else 0) * ent M l k)"
      using i that assms by (auto simp: mmul_def sdiag_def intro!: sum.cong)
    then show ?thesis using i by (simp add: sum_diag_left)
  qed
  have b: "ent (sdiag v) k j = (if k = j then v ! j else 0)" if "k < nc M" for k
    using that j assms by (simp add: sdiag_def)
  have "ent (mmul (mmul (sdiag u) M) (sdiag v)) i j
        = (\<Sum>k<nc M. ent (mmul (sdiag u) M) i k * ent (sdiag v) k j)"
    using i j assms by (simp add: mmul_def [of "mmul (sdiag u) M"])
  also have "\<dots> = (\<Sum>k<nc M. (u ! i * ent M i k) * (if k = j then v ! j else 0))"
    by (rule sum.cong) (simp_all add: a b)
  also have "\<dots> = (\<Sum>k<nc M. if k = j then u ! i * ent M i k * v ! j else 0)"
    by (rule sum.cong) simp_all
  also have "\<dots> = u ! i * ent M i j * v ! j"
    using j by (simp add: sum.delta)
  finally show "ent (mmul (mmul (sdiag u) M) (sdiag v)) i j
        = ent (mk (nr M) (nc M) (\<lambda>i j. u ! i * ent M i j * v ! j)) i j"
    using i j by simp
qed (use assms in simp_all)

lemma scale_shape [simp]: "nr (scale u M v) = nr M" "nc (scale u M v) = nc M" "normal (scale u M v)"
  by (simp_all add: scale_def)

lemma hcat_scale:
  assumes "nr A = nr B" and "length v = nc A"
  shows "hcat (scale u A v) (scale u B w) = scale u (hcat A B) (v @ w)"
proof (rule normal_eqI)
  fix i j assume "i < nr (hcat (scale u A v) (scale u B w))" "j < nc (hcat (scale u A v) (scale u B w))"
  then have "i < nr A" "j < nc A + nc B" by simp_all
  then show "ent (hcat (scale u A v) (scale u B w)) i j = ent (scale u (hcat A B) (v @ w)) i j"
    using assms by (auto simp: hcat_def scale_def nth_append)
qed simp_all

lemma mmul_scale:
  assumes "nc D = nr R" and "\<forall>k<nc D. a ! k * b ! k = 1"
  shows "mmul (scale u D a) (scale b R e) = scale u (mmul D R) e"
proof (rule normal_eqI)
  fix i j assume "i < nr (mmul (scale u D a) (scale b R e))" "j < nc (mmul (scale u D a) (scale b R e))"
  then have i: "i < nr D" and j: "j < nc R" by simp_all
  have "(\<Sum>k<nc D. ent (scale u D a) i k * ent (scale b R e) k j)
        = (\<Sum>k<nc D. u ! i * e ! j * (ent D i k * ent R k j))"
  proof (rule sum.cong [OF refl])
    fix k assume "k \<in> {..<nc D}"
    then have k: "k < nc D" by simp
    then have "a ! k * b ! k = 1" using assms(2) by simp
    then have "u ! i * ent D i k * a ! k * (b ! k * ent R k j * e ! j)
               = u ! i * e ! j * (ent D i k * ent R k j) * 1"
      by (simp only: mult.assoc [symmetric]) (simp add: mult.assoc mult.left_commute)
    then show "ent (scale u D a) i k * ent (scale b R e) k j = u ! i * e ! j * (ent D i k * ent R k j)"
      using i j k assms(1) by (simp add: scale_def)
  qed
  then show "ent (mmul (scale u D a) (scale b R e)) i j = ent (scale u (mmul D R) e) i j"
    using i j by (simp add: mmul_def scale_def sum_distrib_left mult.commute mult.left_commute)
qed simp_all

lemma scale_spzeros: "scale u (spzeros r c) e = spzeros r c"
  by (rule normal_eqI) (simp_all add: scale_def spzeros_def)

section \<open>The difference, collapse and wraparound matrices\<close>

lemma arange_step1: "arange a b (Suc 0) = map (\<lambda>k. a + k) [0..<b - a]"
  by (simp add: arange_def)

lemma ent_collapse_x:
  assumes "i < nCx m + 1" and "j < nCx m"
  shows "ent (collapse_x m) i j = (if i = j + 1 then 1 else 0)"
proof -
  have "ent (collapse_x m) i j
        = (\<Sum>k<nCx m. if arange 1 (nCx m + 1) 1 ! k = i \<and> arange 0 (nCx m) 1 ! k = j
                         then replicate (nCx m) 1 ! k else 0)"
    using assms by (simp add: collapse_x_def csr_matrix_def vnC_def)
  also have "\<dots> = (\<Sum>k<nCx m. if k = j then (if 1 + k = i then 1 else 0) else 0)"
    by (rule sum.cong) (auto simp: arange_step1)
  also have "\<dots> = (if i = j + 1 then 1 else 0)"
    using assms by (auto simp: sum.delta)
  finally show ?thesis .
qed

lemma ddx_collapse: "mmul (ddx (nCx m)) (collapse_x m) = cols_from1 (ddx (nCx m))"
proof (rule normal_eqI)
  show "nr (mmul (ddx (nCx m)) (collapse_x m)) = nr (cols_from1 (ddx (nCx m)))" by simp
  show "nc (mmul (ddx (nCx m)) (collapse_x m)) = nc (cols_from1 (ddx (nCx m)))"
    by (simp add: collapse_x_def vnC_def)
  fix i j assume "i < nr (mmul (ddx (nCx m)) (collapse_x m))" "j < nc (mmul (ddx (nCx m)) (collapse_x m))"
  then have i: "i < nCx m" and j: "j < nCx m" by (simp_all add: collapse_x_def vnC_def)
  have "ent (mmul (ddx (nCx m)) (collapse_x m)) i j
        = (\<Sum>k<nCx m + 1. ent (ddx (nCx m)) i k * ent (collapse_x m) k j)"
    using i j by (simp add: mmul_def collapse_x_def vnC_def)
  also have "\<dots> = (\<Sum>k<nCx m + 1. ent (ddx (nCx m)) i k * (if k = j + 1 then 1 else 0))"
    by (rule sum.cong [OF refl]) (simp only: lessThan_iff ent_collapse_x [OF _ j])
  also have "\<dots> = ent (ddx (nCx m)) i (j + 1)"
    using j by (simp only: sum_pick) simp
  finally show "ent (mmul (ddx (nCx m)) (collapse_x m)) i j = ent (cols_from1 (ddx (nCx m))) i j"
    using i j by (simp add: cols_from1_def)
qed simp_all

lemma sum_two: "(\<Sum>k<length [a, b]. f k) = f 0 + (f (Suc 0) :: real)"
  by simp

lemma ent_spdiags2:
  assumes "i < r" and "j < c"
  shows "ent (spdiags [d0, d1] [a, b] r c) i j
         = (if int j - int i = a then d0 ! j else 0) + (if int j - int i = b then d1 ! j else 0)"
  using assms unfolding spdiags_def ent_mk sum_two by simp

lemma dr_eq: "dr m = cols_from1 (ddx (nCx m))"
proof (rule normal_eqI)
  fix i j assume "i < nr (dr m)" "j < nc (dr m)"
  then have i: "i < nCx m" and j: "j < nCx m" by (simp_all add: dr_def)
  have "j < nCx m + 1" using j by simp
  note r = nth_replicate [OF this]
  have "ent (dr m) i j = (if int j - int i = - 1 then - 1 else 0)
                         + (if int j - int i = 0 then 1 else 0)"
    by (simp only: dr_def ent_spdiags2 [OF i j] r)
  also have "\<dots> = (if j + 1 = i then - 1 else if j = i then 1 else 0)"
    by auto
  also have "\<dots> = ent (cols_from1 (ddx (nCx m))) i j"
    using i j by (simp add: cols_from1_def ddx_def)
  finally show "ent (dr m) i j = ent (cols_from1 (ddx (nCx m))) i j" .
qed (simp_all add: dr_def)

lemma dz_eq: "dz m = ddx (nCz m)"
proof (rule normal_eqI)
  fix i j assume "i < nr (dz m)" "j < nc (dz m)"
  then have i: "i < nCz m" and j: "j < nCz m + 1" by (simp_all add: dz_def)
  note r = nth_replicate [OF j]
  have "ent (dz m) i j = (if int j - int i = 0 then - 1 else 0)
                         + (if int j - int i = 1 then 1 else 0)"
    by (simp only: dz_def ent_spdiags2 [OF i j] r)
  also have "\<dots> = (if j = i then - 1 else if j = i + 1 then 1 else 0)"
    by auto
  also have "\<dots> = ent (ddx (nCz m)) i j"
    using i j by (simp add: ddx_def)
  finally show "ent (dz m) i j = ent (ddx (nCz m)) i j" .
qed (simp_all add: dz_def)

lemma ent_wrap_theta:
  assumes "i < nCy m + 1" and "j < nCy m"
  shows "ent (wrap_theta m) i j = (if (if i < nCy m then i else 0) = j then 1 else 0)"
proof -
  have v: "vnC m ! 1 = nCy m" by (simp add: vnC_def)
  have c: "(arange 0 (nCy m) 1 @ [0]) ! k = (if k < nCy m then k else 0)" if "k < nCy m + 1" for k
    using that by (auto simp: nth_append arange_step1)
  have "ent (wrap_theta m) i j
        = (\<Sum>k<nCy m + 1. if arange 0 (nCy m + 1) 1 ! k = i \<and> (arange 0 (nCy m) 1 @ [0]) ! k = j
                             then replicate (nCy m + 1) 1 ! k else 0)"
    by (simp only: wrap_theta_def csr_matrix_def ent_mk v length_replicate assms simp_thms if_True)
  also have "\<dots> = (\<Sum>k<nCy m + 1. if k = i then (if (if k < nCy m then k else 0) = j then 1 else 0) else 0)"
  proof (rule sum.cong [OF refl])
    fix k assume "k \<in> {..<nCy m + 1}"
    then have k: "k < nCy m + 1" by simp
    then have "arange 0 (nCy m + 1) 1 ! k = k" by (simp add: arange_step1 del: upt_Suc)
    moreover have "replicate (nCy m + 1) (1::real) ! k = 1" using k by (rule nth_replicate)
    ultimately show "(if arange 0 (nCy m + 1) 1 ! k = i \<and> (arange 0 (nCy m) 1 @ [0]) ! k = j
                      then replicate (nCy m + 1) 1 ! k else 0)
                   = (if k = i then (if (if k < nCy m then k else 0) = j then 1 else 0) else (0::real))"
      by (simp only: c [OF k]) simp
  qed
  also have "\<dots> = (if (if i < nCy m then i else 0) = j then 1 else 0)"
    using assms by (simp add: sum.delta)
  finally show ?thesis .
qed

lemma ent_ddxz:
  assumes "i < nCy m" and "j < nCy m"
  shows "ent (ddxz m) i j
         = (if j = i then - 1 else if j = i + 1 then 1 else 0)
           + (if i = nCy m - 1 \<and> j = 0 then 1 else 0)"
proof -
  have "ent (csr_matrix [1] [nCy m - 1] [0] (nCy m) (nCy m)) i j
        = (if i = nCy m - 1 \<and> j = 0 then 1 else 0)"
    using assms by (auto simp: csr_matrix_def)
  moreover have "ent (cols_butlast (ddx (nCy m))) i j
        = (if j = i then - 1 else if j = i + 1 then 1 else 0)"
    using assms by (simp add: cols_butlast_def ddx_def)
  ultimately show ?thesis using assms by (simp add: ddxz_def madd_def)
qed

lemma ddx_wrap:
  "mmul (ddx (nCy m)) (wrap_theta m) = ddxz m"
proof (rule normal_eqI)
  show "nr (mmul (ddx (nCy m)) (wrap_theta m)) = nr (ddxz m)" by (simp add: ddxz_def)
  show "nc (mmul (ddx (nCy m)) (wrap_theta m)) = nc (ddxz m)"
    by (simp add: ddxz_def wrap_theta_def vnC_def)
  fix i j assume "i < nr (mmul (ddx (nCy m)) (wrap_theta m))" "j < nc (mmul (ddx (nCy m)) (wrap_theta m))"
  then have i: "i < nCy m" and j: "j < nCy m" by (simp_all add: wrap_theta_def vnC_def)
  let ?w = "\<lambda>k. if (if k < nCy m then k else 0) = j then 1 else (0::real)"
  have "ent (mmul (ddx (nCy m)) (wrap_theta m)) i j
        = (\<Sum>k<nCy m + 1. ent (ddx (nCy m)) i k * ent (wrap_theta m) k j)"
    using i j by (simp add: mmul_def wrap_theta_def vnC_def)
  also have "\<dots> = (\<Sum>k<nCy m + 1. (if i = k then - 1 else 0) * ?w k
                                + (if i + 1 = k then 1 else 0) * ?w k)"
  proof (rule sum.cong [OF refl])
    fix k assume "k \<in> {..<nCy m + 1}"
    then have k: "k < nCy m + 1" by simp
    have "ent (ddx (nCy m)) i k = (if i = k then - 1 else 0) + (if i + 1 = k then 1 else 0)"
      using i k by (auto simp: ddx_def)
    then show "ent (ddx (nCy m)) i k * ent (wrap_theta m) k j
               = (if i = k then - 1 else 0) * ?w k + (if i + 1 = k then 1 else 0) * ?w k"
      by (simp only: ent_wrap_theta [OF k j] distrib_right)
  qed
  also have "\<dots> = (\<Sum>k<nCy m + 1. (if i = k then - 1 else 0) * ?w k)
                  + (\<Sum>k<nCy m + 1. (if i + 1 = k then 1 else 0) * ?w k)"
    by (rule sum.distrib)
  also have "\<dots> = - ?w i + ?w (i + 1)"
    using i by (simp only: sum_diag_left) simp
  also have "\<dots> = ent (ddxz m) i j"
    using i j by (simp only: ent_ddxz [OF i j]) auto
  finally show "ent (mmul (ddx (nCy m)) (wrap_theta m)) i j = ent (ddxz m) i j" .
qed (simp_all add: ddxz_def)

lemma ddxz_rows_cancel:
  "mmul (ddxz m) (mk (nCy m) 1 (\<lambda>i j. - 1)) = spzeros (nCy m) 1"
proof (rule normal_eqI)
  fix i j
  assume "i < nr (mmul (ddxz m) (mk (nCy m) 1 (\<lambda>i j. - 1)))"
    and "j < nc (mmul (ddxz m) (mk (nCy m) 1 (\<lambda>i j. - 1)))"
  then have i: "i < nCy m" and j: "j = 0" by (simp_all add: ddxz_def)
  have "(\<Sum>k<nCy m. ent (ddxz m) i k)
        = (\<Sum>k<nCy m. (if k = i then - 1 else 0) + (if k = i + 1 then 1 else 0)
                          + (if k = 0 then (if i = nCy m - 1 then 1 else 0) else 0))"
    by (rule sum.cong [OF refl]) (simp only: lessThan_iff ent_ddxz [OF i], auto)
  also have "\<dots> = (\<Sum>k<nCy m. if k = i then - 1 else 0) + (\<Sum>k<nCy m. if k = i + 1 then 1 else 0)
                  + (\<Sum>k<nCy m. if k = 0 then (if i = nCy m - 1 then 1 else 0) else 0)"
    by (simp only: sum.distrib)
  also have "\<dots> = - 1 + (if i + 1 < nCy m then 1 else 0) + (if i = nCy m - 1 then 1 else 0)"
    using i by (simp add: sum.delta)
  also have "\<dots> = 0" using i by auto
  finally have z: "(\<Sum>k<nCy m. ent (ddxz m) i k) = 0" .
  have "ent (mmul (ddxz m) (mk (nCy m) 1 (\<lambda>i j. - 1))) i j
        = (\<Sum>k<nCy m. ent (ddxz m) i k * (- 1))"
    using i j by (simp add: mmul_def ddxz_def)
  also have "\<dots> = (\<Sum>k<nCy m. ent (ddxz m) i k) * (- 1)"
    by (rule sum_distrib_right [symmetric])
  finally show "ent (mmul (ddxz m) (mk (nCy m) 1 (\<lambda>i j. - 1))) i j = ent (spzeros (nCy m) 1) i j"
    using z i j by (simp add: spzeros_def)
qed (simp_all add: ddxz_def)

lemma arange_stride: "0 < s \<Longrightarrow> arange 0 (s * n) s = map (\<lambda>k. k * s) [0..<n]"
proof -
  assume s: "0 < s"
  have "(s * n + s - 1) div s = n"
  proof -
    have "s * n + s - 1 = s * n + (s - 1)" using s by simp
    moreover have "(s * n + (s - 1)) div s = n" using s
      by (metis add_cancel_left_right diff_less div_less div_mult_self4
          less_numeral_extra(1) not_gr_zero)
    ultimately show ?thesis by simp
  qed
  then show ?thesis by (simp add: arange_def)
qed

lemma wrap_z_kron:
  assumes "0 < nCx m"
  shows "wrap_z m = kron (mk (nCy m) 1 (\<lambda>i j. - 1)) (mk (nCx m) 1 (\<lambda>i j. if i = 0 then 1 else 0))"
proof (rule normal_eqI)
  have p: "prod_list (take 2 (vnC m)) = nCx m * nCy m" "vnC m ! 0 = nCx m"
    by (simp_all add: vnC_def)
  show "nr (wrap_z m) = nr (kron (mk (nCy m) 1 (\<lambda>i j. - 1)) (mk (nCx m) 1 (\<lambda>i j. if i = 0 then 1 else 0)))"
    by (simp add: wrap_z_def p mult.commute)
  show "nc (wrap_z m) = nc (kron (mk (nCy m) 1 (\<lambda>i j. - 1)) (mk (nCx m) 1 (\<lambda>i j. if i = 0 then 1 else 0)))"
    by (simp add: wrap_z_def)
  fix i j assume "i < nr (wrap_z m)" "j < nc (wrap_z m)"
  then have i: "i < nCx m * nCy m" and j: "j = 0" by (simp_all add: wrap_z_def p)
  have i': "i < nCy m * nCx m" using i by (simp add: mult.commute)
  have q: "i div nCx m < nCy m" using i' by (rule div_less_rows)
  have "ent (wrap_z m) i j
        = (\<Sum>k<nCy m. if arange 0 (nCx m * nCy m) (nCx m) ! k = i \<and> replicate (nCy m) 0 ! k = (0::nat)
                         then scal (- 1) (ones (nCy m)) ! k else 0)"
    using i j by (simp only: wrap_z_def csr_matrix_def ent_mk p length_vec_simps) simp
  also have "\<dots> = (\<Sum>k<nCy m. if k = i div nCx m then (if i mod nCx m = 0 then - 1 else 0) else (0::real))"
  proof (rule sum.cong [OF refl])
    fix k assume "k \<in> {..<nCy m}"
    then have k: "k < nCy m" by simp
    have a: "arange 0 (nCx m * nCy m) (nCx m) ! k = k * nCx m"
      using k by (simp add: arange_stride [OF assms])
    have b: "replicate (nCy m) (0::nat) ! k = 0" using k by (rule nth_replicate)
    have c: "scal (- 1) (ones (nCy m)) ! k = - 1" using k by (simp add: scal_def ones_def)
    have d: "(k * nCx m = i) = (k = i div nCx m \<and> i mod nCx m = 0)"
      using assms by (metis div_mult_mod_eq add.right_neutral div_mult_self_is_m mod_mult_self2_is_0)
    show "(if arange 0 (nCx m * nCy m) (nCx m) ! k = i \<and> replicate (nCy m) 0 ! k = (0::nat)
           then scal (- 1) (ones (nCy m)) ! k else 0)
          = (if k = i div nCx m then (if i mod nCx m = 0 then - 1 else 0) else (0::real))"
      by (simp only: a b c d) simp
  qed
  also have "\<dots> = (if i mod nCx m = 0 then - 1 else (0::real))"
    using q by (simp add: sum.delta)
  also have "\<dots> = ent (kron (mk (nCy m) 1 (\<lambda>i j. - 1)) (mk (nCx m) 1 (\<lambda>i j. if i = 0 then 1 else 0))) i j"
    using i' j q assms by (simp add: kron_def)
  finally show "ent (wrap_z m) i j
        = ent (kron (mk (nCy m) 1 (\<lambda>i j. - 1)) (mk (nCx m) 1 (\<lambda>i j. if i = 0 then 1 else 0))) i j" .
qed (simp_all add: wrap_z_def)

section \<open>Lengths and signs of the geometry vectors\<close>

lemma full_counts:
  assumes "\<not> isSymmetric m"
  shows "nNx m = nCx m + 1" "nNy m = nCy m" "nC m = nCx m * nCy m * nCz m"
    "nFx m = nCx m * nCy m * nCz m" "nFy m = nCx m * nCy m * nCz m"
    "nFz m = nCx m * nCy m * (nCz m + 1)" "nEx m = nCx m * nCy m * (nCz m + 1)"
    "nEy m = nCx m * nCy m * (nCz m + 1)" "nEz m = nCx m * nCy m * nCz m + nCz m"
  using assms
  by (simp_all add: nC_def vnC_def nFx_def vnFx_def nFz_def vnFz_def nEy_def vnEy_def nNx_def
      nNz_def nNy_def nFy_def vnFy_def nEx_def vnEx_def nEz_def algebra_simps)

lemma length_shells [simp]:
  "length (vsub (sq (cumsum_from a xs)) (sq (a # butlast (cumsum_from a xs)))) = length xs"
  by (simp add: min_def)

lemma vectorNx_full:
  "\<not> isSymmetric m \<Longrightarrow> vectorNx m = 0 # cumsum_from 0 (hx m)"
  by (simp add: vectorNx_def cumsum_def)

lemma vectorNx_sym: "isSymmetric m \<Longrightarrow> vectorNx m = cumsum_from 0 (hx m)"
  by (simp add: vectorNx_def cumsum_def)

lemma length_vol: "length (vol m) = nC m"
proof (cases "isSymmetric m")
  case True
  then show ?thesis
    by (simp add: vol_def vectorNx_sym sym_counts nCx_def nCz_def mult.commute)
next
  case False
  have "length (vsub (sq (cumsum_from 0 (hx m))) (sq (butlast (0 # cumsum_from 0 (hx m))))) = nCx m"
    by (simp only: shells_drop_last length_shells nCx_def)
  then show ?thesis using False
    by (simp only: vol_def vectorNx_full [OF False] if_False list.sel length_kronv length_vec_simps
        full_counts(3) [OF False] nCy_def [symmetric] nCz_def [symmetric]) (simp add: nCy_def nCz_def)
qed

lemma length_area: "length (area m) = nF m"
proof (cases "isSymmetric m")
  case True
  then show ?thesis
    by (simp add: area_def vectorNx_sym vectorNz_def cumsum_def sym_counts nF_def vnF_def
        nCx_def nCz_def mult.commute)
next
  case False
  have "length (vsub (sq (cumsum_from 0 (hx m))) (sq (butlast (0 # cumsum_from 0 (hx m))))) = nCx m"
    by (simp only: shells_drop_last length_shells nCx_def)
  then show ?thesis using False
    by (simp add: area_def vectorNx_full nF_def vnF_def full_counts Let_def nNz_def
        del: butlast.simps)
      (simp add: nCx_def nCy_def nCz_def algebra_simps)
qed

lemma length_edge: "length (edge m) = nE m"
proof (cases "isSymmetric m")
  case True
  then show ?thesis
    by (simp add: edge_def gridN_col0_def vectorNx_sym vectorNy_def vectorNz_def cumsum_def
        sym_counts nE_def nCx_def nCz_def mult.commute)
next
  case False
  then show ?thesis
    by (simp add: edge_def vectorNx_full nE_def full_counts Let_def vnC_def)
      (simp add: nCx_def nCy_def nCz_def algebra_simps)
qed

lemma positive_append [simp]: "positive (a @ b) = (positive a \<and> positive b)"
  by (simp add: positive_def)

lemma positive_kronv: "positive a \<Longrightarrow> positive b \<Longrightarrow> positive (kronv a b)"
  by (auto simp: kronv_def positive_def list_all_iff)

lemma positive_scal: "0 < c \<Longrightarrow> positive v \<Longrightarrow> positive (scal c v)"
  by (simp add: scal_def positive_def list_all_iff)

lemma positive_ones [simp]: "positive (ones n)"
  by (simp add: ones_def positive_def list_all_iff)

lemma positive_cumsum_from: "0 \<le> a \<Longrightarrow> positive xs \<Longrightarrow> positive (cumsum_from a xs)"
  by (induction xs arbitrary: a) (simp_all add: positive_def)

lemma positive_shells:
  "0 \<le> a \<Longrightarrow> positive xs \<Longrightarrow>
   positive (vsub (sq (cumsum_from a xs)) (sq (a # butlast (cumsum_from a xs))))"
proof (induction xs arbitrary: a)
  case Nil
  then show ?case by (simp add: vsub_def sq_def positive_def)
next
  case (Cons x xs)
  then have x: "0 < x" and p: "positive xs" by (simp_all add: positive_def)
  have e: "vsub (sq (cumsum_from a (x # xs))) (sq (a # butlast (cumsum_from a (x # xs))))
        = ((a + x) ^ 2 - a ^ 2)
          # vsub (sq (cumsum_from (a + x) xs)) (sq (butlast ((a + x) # cumsum_from (a + x) xs)))"
    by (simp add: vsub_def sq_def)
  have "(a + x) ^ 2 - a ^ 2 = x * (2 * a + x)" by (simp add: power2_eq_square algebra_simps)
  moreover have "0 < x * (2 * a + x)" using x Cons.prems(1) by (simp add: add_nonneg_pos)
  ultimately have h: "0 < (a + x) ^ 2 - a ^ 2" by simp
  have "positive (vsub (sq (cumsum_from (a + x) xs)) (sq ((a + x) # butlast (cumsum_from (a + x) xs))))"
    using Cons.IH [of "a + x"] x Cons.prems(1) p by simp
  then show ?case
    using h by (simp only: e shells_drop_last) (simp add: positive_def)
qed

lemma positive_area:
  assumes "positive (hx m)" and "positive (hy m)" and "positive (hz m)"
  shows "positive (area m)"
proof (cases "isSymmetric m")
  case True
  have "positive (kronv (hz m) (scal (2 * pi) (cumsum_from 0 (hx m))))"
    using assms by (intro positive_kronv positive_scal positive_cumsum_from) simp_all
  moreover have "positive (kronv (ones (length (vectorNz m)))
           (scal pi (vsub (sq (cumsum_from 0 (hx m))) (sq (0 # butlast (cumsum_from 0 (hx m)))))))"
    using assms by (intro positive_kronv positive_scal positive_shells) simp_all
  ultimately show ?thesis
    using True by (simp add: area_def vectorNx_sym Let_def)
next
  case False
  let ?C = "cumsum_from 0 (hx m)"
  have a: "positive (kronv (hz m) (kronv (hy m) ?C))"
    using assms by (intro positive_kronv positive_cumsum_from) simp_all
  have b: "positive (kronv (hz m) (kronv (ones (nNy m)) (hx m)))"
    using assms by (intro positive_kronv) simp_all
  have "positive (kronv (ones (nNz m)) (kronv (hy m) (scal (1 / 2) (vsub (sq ?C) (sq (0 # butlast ?C))))))"
    using assms by (intro positive_kronv positive_scal positive_shells) simp_all
  then have c: "positive (kronv (ones (nNz m)) (kronv (hy m) (scal (1 / 2) (vsub (sq ?C) (sq (butlast (0 # ?C)))))))"
    by (simp only: shells_drop_last)
  have "area m = kronv (hz m) (kronv (hy m) ?C) @ kronv (hz m) (kronv (ones (nNy m)) (hx m))
          @ kronv (ones (nNz m)) (kronv (hy m) (scal (1 / 2) (vsub (sq ?C) (sq (butlast (0 # ?C))))))"
    using False by (simp only: area_def vectorNx_full [OF False] if_False list.sel Let_def)
  then show ?thesis using a b c by simp
qed

lemma recip_cancel:
  assumes "positive a"
  shows "\<forall>k<length a. a ! k * recip a ! k = 1"
proof (intro allI impI)
  fix k assume k: "k < length a"
  then have "0 < a ! k" using assms by (simp add: positive_def list_all_length)
  then show "a ! k * recip a ! k = 1" using k by (simp add: recip_def)
qed

section \<open>Products of three-factor Kronecker blocks\<close>

lemma speye_sq: "mmul (speye n) (speye n) = speye n"
  by (rule mmul_speye_left) simp_all

lemma kron_mid:
  assumes "normal T" "nr T = b" "nc T = b" "normal Z" "nr Z = c" "nc Z = c1"
  shows "mmul (kron (kron (speye c) T) (speye a)) (kron (kron Z (speye b)) (speye a))
         = kron (kron Z T) (speye a)"
    and "mmul (kron (kron Z (speye b)) (speye a)) (kron (kron (speye c1) T) (speye a))
         = kron (kron Z T) (speye a)"
proof -
  have "mmul (kron (kron (speye c) T) (speye a)) (kron (kron Z (speye b)) (speye a))
        = kron (mmul (kron (speye c) T) (kron Z (speye b))) (mmul (speye a) (speye a))"
    using assms by (intro mmul_kron) simp_all
  also have "mmul (kron (speye c) T) (kron Z (speye b)) = kron (mmul (speye c) Z) (mmul T (speye b))"
    using assms by (intro mmul_kron) simp_all
  finally show "mmul (kron (kron (speye c) T) (speye a)) (kron (kron Z (speye b)) (speye a))
         = kron (kron Z T) (speye a)"
    using assms by (simp add: mmul_speye_left mmul_speye_right speye_sq)
  have "mmul (kron (kron Z (speye b)) (speye a)) (kron (kron (speye c1) T) (speye a))
        = kron (mmul (kron Z (speye b)) (kron (speye c1) T)) (mmul (speye a) (speye a))"
    using assms by (intro mmul_kron) simp_all
  also have "mmul (kron Z (speye b)) (kron (speye c1) T) = kron (mmul Z (speye c1)) (mmul (speye b) T)"
    using assms by (intro mmul_kron) simp_all
  finally show "mmul (kron (kron Z (speye b)) (speye a)) (kron (kron (speye c1) T) (speye a))
         = kron (kron Z T) (speye a)"
    using assms by (simp add: mmul_speye_left mmul_speye_right speye_sq)
qed

lemma kron_last:
  assumes "normal X" "nr X = a" "nc X = a" "normal Z" "nr Z = c" "nc Z = c1"
  shows "mmul (kron (kron (speye c) (speye b)) X) (kron (kron Z (speye b)) (speye a))
         = kron (kron Z (speye b)) X"
    and "mmul (kron (kron Z (speye b)) (speye a)) (kron (kron (speye c1) (speye b)) X)
         = kron (kron Z (speye b)) X"
proof -
  have "mmul (kron (kron (speye c) (speye b)) X) (kron (kron Z (speye b)) (speye a))
        = kron (mmul (kron (speye c) (speye b)) (kron Z (speye b))) (mmul X (speye a))"
    using assms by (intro mmul_kron) simp_all
  also have "mmul (kron (speye c) (speye b)) (kron Z (speye b))
             = kron (mmul (speye c) Z) (mmul (speye b) (speye b))"
    using assms by (intro mmul_kron) simp_all
  finally show "mmul (kron (kron (speye c) (speye b)) X) (kron (kron Z (speye b)) (speye a))
         = kron (kron Z (speye b)) X"
    using assms by (simp add: mmul_speye_left mmul_speye_right speye_sq)
  have "mmul (kron (kron Z (speye b)) (speye a)) (kron (kron (speye c1) (speye b)) X)
        = kron (mmul (kron Z (speye b)) (kron (speye c1) (speye b))) (mmul (speye a) X)"
    using assms by (intro mmul_kron) simp_all
  also have "mmul (kron Z (speye b)) (kron (speye c1) (speye b))
             = kron (mmul Z (speye c1)) (mmul (speye b) (speye b))"
    using assms by (intro mmul_kron) simp_all
  finally show "mmul (kron (kron Z (speye b)) (speye a)) (kron (kron (speye c1) (speye b)) X)
         = kron (kron Z (speye b)) X"
    using assms by (simp add: mmul_speye_left mmul_speye_right speye_sq)
qed

lemma kron_seam:
  assumes "normal X" "nr X = a" "nc X = a" "normal T" "nr T = b" "nc T = b"
    and "nr w = a * b" and "nc w = 1"
  shows "mmul (kron (kron (speye c) (speye b)) X)
              (kron (speye c) (hcat (spzeros (a * b) 1) (kron T (speye a))))
         = kron (speye c) (hcat (spzeros (b * a) 1) (kron T X))"
    and "mmul (kron (kron (speye c) T) (speye a)) (kron (speye c) (hcat w (kron (speye b) X)))
         = kron (speye c) (hcat (mmul (kron T (speye a)) w) (kron T X))"
proof -
  have "mmul (kron (speye c) (kron (speye b) X))
             (kron (speye c) (hcat (spzeros (a * b) 1) (kron T (speye a))))
        = kron (mmul (speye c) (speye c))
               (mmul (kron (speye b) X) (hcat (spzeros (a * b) 1) (kron T (speye a))))"
    using assms by (intro mmul_kron) (simp_all add: mult.commute)
  also have "mmul (kron (speye b) X) (hcat (spzeros (a * b) 1) (kron T (speye a)))
             = hcat (mmul (kron (speye b) X) (spzeros (a * b) 1))
                    (mmul (kron (speye b) X) (kron T (speye a)))"
    using assms by (intro mmul_hcat_right) (simp_all add: mult.commute)
  also have "mmul (kron (speye b) X) (kron T (speye a)) = kron (mmul (speye b) T) (mmul X (speye a))"
    using assms by (intro mmul_kron) simp_all
  finally show "mmul (kron (kron (speye c) (speye b)) X)
              (kron (speye c) (hcat (spzeros (a * b) 1) (kron T (speye a))))
         = kron (speye c) (hcat (spzeros (b * a) 1) (kron T X))"
    using assms
    by (simp add: kron_assoc mmul_speye_left mmul_speye_right speye_sq mmul_spzeros_right)
  have "mmul (kron (speye c) (kron T (speye a))) (kron (speye c) (hcat w (kron (speye b) X)))
        = kron (mmul (speye c) (speye c)) (mmul (kron T (speye a)) (hcat w (kron (speye b) X)))"
    using assms by (intro mmul_kron) (simp_all add: mult.commute)
  also have "mmul (kron T (speye a)) (hcat w (kron (speye b) X))
             = hcat (mmul (kron T (speye a)) w) (mmul (kron T (speye a)) (kron (speye b) X))"
    using assms by (intro mmul_hcat_right) (simp_all add: mult.commute)
  also have "mmul (kron T (speye a)) (kron (speye b) X) = kron (mmul T (speye b)) (mmul (speye a) X)"
    using assms by (intro mmul_kron) simp_all
  finally show "mmul (kron (kron (speye c) T) (speye a)) (kron (speye c) (hcat w (kron (speye b) X)))
         = kron (speye c) (hcat (mmul (kron T (speye a)) w) (kron T X))"
    using assms
    by (simp add: kron_assoc mmul_speye_left mmul_speye_right speye_sq)
qed

section \<open>The blocks of the face divergence\<close>

lemma kron_speye1: "normal A \<Longrightarrow> kron A (speye 1) = A"
  by (rule normal_eqI) (simp_all add: kron_def speye_def)

lemma take_three:
  "length v = a + b + c \<Longrightarrow> take a v @ take b (drop a v) @ take c (drop (a + b) v) = v"
  by (metis add.commute append_take_drop_id drop_drop take_all_iff order_refl length_drop
      add_diff_cancel_left' diff_diff_left)

lemma deflation_Fx:
  "deflationMatrix m ''Fx'' = Inr (Some (kron3 (speye (nCz m)) (speye (nCy m)) (collapse_x m)))"
  by (simp add: deflationMatrix_def vnC_def)

lemma deflation_Fy:
  "deflationMatrix m ''Fy'' = Inr (Some (kron3 (speye (nCz m)) (wrap_theta m) (speye (nCx m))))"
  by (simp add: deflationMatrix_def vnC_def)

lemma shape_deflation [simp]:
  "nr (collapse_x m) = nCx m + 1" "nc (collapse_x m) = nCx m"
  "nr (wrap_theta m) = nCy m + 1" "nc (wrap_theta m) = nCy m"
  "nr (ddxz m) = nCy m" "nc (ddxz m) = nCy m" "normal (ddxz m)"
  "normal (collapse_x m)" "normal (wrap_theta m)"
  "nr (wrap_z m) = nCx m * nCy m" "nc (wrap_z m) = 1" "normal (wrap_z m)"
  by (simp_all add: collapse_x_def wrap_theta_def ddxz_def wrap_z_def vnC_def)

lemma K1_eq:
  "mmul (kron3 (speye c) (speye b) (ddx (nCx m))) (kron3 (speye c) (speye b) (collapse_x m))
   = kron (kron (speye c) (speye b)) (cols_from1 (ddx (nCx m)))"
proof -
  have "mmul (kron (kron (speye c) (speye b)) (ddx (nCx m)))
             (kron (kron (speye c) (speye b)) (collapse_x m))
        = kron (mmul (kron (speye c) (speye b)) (kron (speye c) (speye b)))
               (mmul (ddx (nCx m)) (collapse_x m))"
    by (intro mmul_kron) simp_all
  then show ?thesis
    by (simp add: kron3_def kron_speye_speye speye_sq ddx_collapse)
qed

lemma K2_eq:
  "mmul (kron3 (speye c) (ddx (nCy m)) (speye a)) (kron3 (speye c) (wrap_theta m) (speye a))
   = kron (kron (speye c) (ddxz m)) (speye a)"
proof -
  have "mmul (kron (kron (speye c) (ddx (nCy m))) (speye a))
             (kron (kron (speye c) (wrap_theta m)) (speye a))
        = kron (mmul (kron (speye c) (ddx (nCy m))) (kron (speye c) (wrap_theta m)))
               (mmul (speye a) (speye a))"
    by (intro mmul_kron) simp_all
  also have "mmul (kron (speye c) (ddx (nCy m))) (kron (speye c) (wrap_theta m))
             = kron (mmul (speye c) (speye c)) (mmul (ddx (nCy m)) (wrap_theta m))"
    by (intro mmul_kron) simp_all
  finally show ?thesis
    by (simp add: kron3_def speye_sq ddx_wrap)
qed

lemma counts_any:
  "nC m = nCx m * nCy m * nCz m" "nFx m = nCx m * nCy m * nCz m"
  "nFz m = nCx m * nCy m * (nCz m + 1)" "nF m = nFx m + nFy m + nFz m"
  by (simp_all add: nC_def vnC_def nFx_def vnFx_def nFz_def vnFz_def nNz_def nF_def vnF_def
      algebra_simps)

lemma faceDivx_eq:
  "faceDivx m = Inr (scale (recip (vol m))
                       (kron (kron (speye (nCz m)) (speye (nCy m))) (cols_from1 (ddx (nCx m))))
                       (take (nFx m) (area m)))"
proof -
  let ?K = "kron (kron (speye (nCz m)) (speye (nCy m))) (cols_from1 (ddx (nCx m)))"
  have "length (recip (vol m)) = nr ?K"
    by (simp add: length_vol counts_any mult.commute mult.left_commute)
  moreover have "length (take (nFx m) (area m)) = nc ?K"
    by (simp add: length_area counts_any mult.commute mult.left_commute)
  ultimately have "mmul (mmul (sdiag (recip (vol m))) ?K) (sdiag (take (nFx m) (area m)))
                   = scale (recip (vol m)) ?K (take (nFx m) (area m))"
    by (rule scale_eq)
  then show ?thesis
    by (simp add: faceDivx_def deflation_Fx K1_eq r_F_def)
qed

lemma faceDivy_eq:
  assumes "\<not> isSymmetric m"
  shows "faceDivy m = Inr (scale (recip (vol m))
                       (kron (kron (speye (nCz m)) (ddxz m)) (speye (nCx m)))
                       (take (nFy m) (drop (nFx m) (area m))))"
proof -
  let ?K = "kron (kron (speye (nCz m)) (ddxz m)) (speye (nCx m))"
  have "length (recip (vol m)) = nr ?K"
    by (simp add: length_vol counts_any mult.commute mult.left_commute)
  moreover have "length (take (nFy m) (drop (nFx m) (area m))) = nc ?K"
    using assms by (simp add: length_area counts_any full_counts mult.commute mult.left_commute)
  ultimately have "mmul (mmul (sdiag (recip (vol m))) ?K) (sdiag (take (nFy m) (drop (nFx m) (area m))))
                   = scale (recip (vol m)) ?K (take (nFy m) (drop (nFx m) (area m)))"
    by (rule scale_eq)
  then show ?thesis
    by (simp add: faceDivy_def deflation_Fy K2_eq r_F_def)
qed

lemma faceDivz_eq:
  "faceDivz m = scale (recip (vol m))
                  (kron (kron (ddx (nCz m)) (speye (nCy m))) (speye (nCx m)))
                  (take (nFz m) (drop (nFx m + nFy m) (area m)))"
proof -
  let ?K = "kron (kron (ddx (nCz m)) (speye (nCy m))) (speye (nCx m))"
  have "length (recip (vol m)) = nr ?K"
    by (simp add: length_vol counts_any mult.commute mult.left_commute)
  moreover have "length (take (nFz m) (drop (nFx m + nFy m) (area m))) = nc ?K"
    by (simp add: length_area counts_any mult.commute mult.left_commute)
  ultimately have "mmul (mmul (sdiag (recip (vol m))) ?K)
                     (sdiag (take (nFz m) (drop (nFx m + nFy m) (area m))))
                   = scale (recip (vol m)) ?K (take (nFz m) (drop (nFx m + nFy m) (area m)))"
    by (rule scale_eq)
  then show ?thesis
    by (simp add: faceDivz_def kron3_def r_F_def Let_def)
qed

section \<open>Normal forms of the face divergence and the edge curl\<close>

lemma kron_speye_Suc0: "normal A \<Longrightarrow> kron A (speye (Suc 0)) = A"
  using kron_speye1 [of A] by simp

lemma faceDiv_symmetric:
  assumes "isSymmetric m"
  shows "faceDiv m = Inr (scale (recip (vol m))
           (hcat (kron (speye (nCz m)) (cols_from1 (ddx (nCx m))))
                 (kron (ddx (nCz m)) (speye (nCx m))))
           (area m))"
proof -
  let ?K1 = "kron (kron (speye (nCz m)) (speye (nCy m))) (cols_from1 (ddx (nCx m)))"
  let ?K3 = "kron (kron (ddx (nCz m)) (speye (nCy m))) (speye (nCx m))"
  note c = sym_counts [OF assms]
  have y: "nCy m = 1" by (rule c)
  have k1: "?K1 = kron (speye (nCz m)) (cols_from1 (ddx (nCx m)))"
    by (simp add: y kron_speye_Suc0)
  have k3: "?K3 = kron (ddx (nCz m)) (speye (nCx m))"
    by (simp add: y kron_speye_Suc0)
  have a: "take (nFx m) (area m) @ take (nFz m) (drop (nFx m + nFy m) (area m)) = area m"
    using take_three [of "area m" "nFx m" 0 "nFz m"] by (simp add: length_area counts_any c)
  have "faceDiv m = Inr (hcat (scale (recip (vol m)) ?K1 (take (nFx m) (area m)))
                              (scale (recip (vol m)) ?K3 (take (nFz m) (drop (nFx m + nFy m) (area m)))))"
    using assms by (simp add: faceDiv_def faceDivx_eq faceDivz_eq)
  also have "hcat (scale (recip (vol m)) ?K1 (take (nFx m) (area m)))
                  (scale (recip (vol m)) ?K3 (take (nFz m) (drop (nFx m + nFy m) (area m))))
             = scale (recip (vol m)) (hcat ?K1 ?K3)
                 (take (nFx m) (area m) @ take (nFz m) (drop (nFx m + nFy m) (area m)))"
    by (rule hcat_scale) (simp_all add: length_area counts_any mult.commute mult.left_commute)
  finally show ?thesis by (simp only: a k1 k3)
qed

lemma faceDiv_full:
  assumes "\<not> isSymmetric m" and "0 < nCy m"
  shows "faceDiv m = Inr (scale (recip (vol m))
           (hcat (hcat (kron (kron (speye (nCz m)) (speye (nCy m))) (cols_from1 (ddx (nCx m))))
                       (kron (kron (speye (nCz m)) (ddxz m)) (speye (nCx m))))
                 (kron (kron (ddx (nCz m)) (speye (nCy m))) (speye (nCx m))))
           (area m))"
proof -
  let ?K1 = "kron (kron (speye (nCz m)) (speye (nCy m))) (cols_from1 (ddx (nCx m)))"
  let ?K2 = "kron (kron (speye (nCz m)) (ddxz m)) (speye (nCx m))"
  let ?K3 = "kron (kron (ddx (nCz m)) (speye (nCy m))) (speye (nCx m))"
  let ?S1 = "take (nFx m) (area m)" and ?S2 = "take (nFy m) (drop (nFx m) (area m))"
  let ?S3 = "take (nFz m) (drop (nFx m + nFy m) (area m))"
  note c = full_counts [OF assms(1)]
  have y: "1 < nCy m" using assms by (simp add: isSymmetric_def)
  have a: "(?S1 @ ?S2) @ ?S3 = area m"
    using take_three [of "area m" "nFx m" "nFy m" "nFz m"] by (simp add: length_area counts_any)
  have "faceDiv m = Inr (hcat (hcat (scale (recip (vol m)) ?K1 ?S1) (scale (recip (vol m)) ?K2 ?S2))
                              (scale (recip (vol m)) ?K3 ?S3))"
    using assms(1) y by (simp add: faceDiv_def faceDivx_eq faceDivy_eq faceDivz_eq)
  also have "hcat (scale (recip (vol m)) ?K1 ?S1) (scale (recip (vol m)) ?K2 ?S2)
             = scale (recip (vol m)) (hcat ?K1 ?K2) (?S1 @ ?S2)"
    by (rule hcat_scale) (simp_all add: length_area counts_any mult.commute mult.left_commute)
  also have "hcat (scale (recip (vol m)) (hcat ?K1 ?K2) (?S1 @ ?S2)) (scale (recip (vol m)) ?K3 ?S3)
             = scale (recip (vol m)) (hcat (hcat ?K1 ?K2) ?K3) ((?S1 @ ?S2) @ ?S3)"
    by (rule hcat_scale)
      (simp_all add: length_area counts_any c mult.commute mult.left_commute)
  finally show ?thesis by (simp only: a)
qed

lemma edgeCurl_symmetric:
  assumes "isSymmetric m"
  shows "edgeCurl m = Inr (scale (recip (area m))
           (vcat (mneg (kron (ddx (nCz m)) (speye (nCx m))))
                 (kron (speye (nCz m + 1)) (cols_from1 (ddx (nCx m)))))
           (edge m))"
proof -
  let ?R = "vcat (mneg (kron (ddx (nCz m)) (speye (nCx m))))
                 (kron (speye (nCz m + 1)) (cols_from1 (ddx (nCx m))))"
  note c = sym_counts [OF assms]
  have "length (recip (area m)) = nr ?R"
    by (simp add: length_area counts_any c algebra_simps)
  moreover have "length (edge m) = nc ?R"
    by (simp add: length_edge nE_def c algebra_simps)
  ultimately have "mmul (mmul (sdiag (recip (area m))) ?R) (sdiag (edge m))
                   = scale (recip (area m)) ?R (edge m)"
    by (rule scale_eq)
  then show ?thesis
    using assms by (simp add: edgeCurl_def Let_def dr_eq dz_eq identity_speye nNz_def)
qed

lemma shape_curl:
  assumes "\<not> isSymmetric m"
  shows "nr (curl_Cr m) = nFx m" "nc (curl_Cr m) = nE m"
    "nr (curl_Ct m) = nFy m" "nc (curl_Ct m) = nE m"
    "nr (curl_Cz m) = nFz m" "nc (curl_Cz m) = nE m"
  using assms
  by (simp_all add: curl_Cr_def curl_Ct_def curl_Cz_def Let_def nE_def full_counts vnC_def
      algebra_simps)

lemma edgeCurl_full:
  assumes "\<not> isSymmetric m" and "0 < nCy m" and "0 < nCx m"
  shows "edgeCurl m = Inr (scale (recip (area m))
           (vcat (vcat (curl_Cr m) (curl_Ct m)) (curl_Cz m)) (edge m))"
proof -
  let ?R = "vcat (vcat (curl_Cr m) (curl_Ct m)) (curl_Cz m)"
  have "length (recip (area m)) = nr ?R"
    by (simp add: length_area counts_any shape_curl [OF assms(1)])
  moreover have "length (edge m) = nc ?R"
    by (simp add: length_edge shape_curl [OF assms(1)])
  ultimately have "mmul (mmul (sdiag (recip (area m))) ?R) (sdiag (edge m))
                   = scale (recip (area m)) ?R (edge m)"
    by (rule scale_eq)
  then show ?thesis
    using assms by (simp add: edgeCurl_def Let_def vnC_def)
qed

section \<open>The unscaled divergence of the unscaled curl\<close>

lemma sym_product_zero:
  assumes "isSymmetric m"
  shows "mmul (hcat (kron (speye (nCz m)) (cols_from1 (ddx (nCx m))))
                    (kron (ddx (nCz m)) (speye (nCx m))))
              (vcat (mneg (kron (ddx (nCz m)) (speye (nCx m))))
                    (kron (speye (nCz m + 1)) (cols_from1 (ddx (nCx m)))))
         = spzeros (nC m) (nE m)"
proof -
  let ?Dx = "cols_from1 (ddx (nCx m))" and ?Dz = "ddx (nCz m)"
  let ?K1 = "kron (speye (nCz m)) ?Dx" and ?K3 = "kron ?Dz (speye (nCx m))"
  let ?Kr = "kron (speye (nCz m + 1)) ?Dx"
  note c = sym_counts [OF assms]
  have "mmul (hcat ?K1 ?K3) (vcat (mneg ?K3) ?Kr) = madd (mmul ?K1 (mneg ?K3)) (mmul ?K3 ?Kr)"
    by (rule mmul_hcat_vcat) simp_all
  also have "mmul ?K1 (mneg ?K3) = mneg (mmul ?K1 ?K3)"
    by (rule mmul_mneg_right) simp
  also have "mmul ?K1 ?K3 = kron (mmul (speye (nCz m)) ?Dz) (mmul ?Dx (speye (nCx m)))"
    by (rule mmul_kron) simp_all
  also have "\<dots> = kron ?Dz ?Dx"
    by (simp add: mmul_speye_left mmul_speye_right)
  also have "mmul ?K3 ?Kr = kron (mmul ?Dz (speye (nCz m + 1))) (mmul (speye (nCx m)) ?Dx)"
    by (rule mmul_kron) simp_all
  also have "\<dots> = kron ?Dz ?Dx"
    by (simp add: mmul_speye_left mmul_speye_right)
  also have "madd (mneg (kron ?Dz ?Dx)) (kron ?Dz ?Dx) = spzeros (nr (kron ?Dz ?Dx)) (nc (kron ?Dz ?Dx))"
    by (rule cancel2) simp
  also have "\<dots> = spzeros (nC m) (nE m)"
    by (simp add: c nE_def mult.commute)
  finally show ?thesis .
qed

lemma seam_zero:
  assumes "0 < nCx m"
  shows "mmul (kron (ddxz m) (speye (nCx m))) (wrap_z m) = spzeros (nCy m * nCx m) 1"
proof -
  let ?c = "mk (nCy m) 1 (\<lambda>i j. - 1)" and ?e = "mk (nCx m) 1 (\<lambda>i j. if i = 0 then 1 else 0)"
  have "mmul (kron (ddxz m) (speye (nCx m))) (kron ?c ?e)
        = kron (mmul (ddxz m) ?c) (mmul (speye (nCx m)) ?e)"
    by (rule mmul_kron) simp_all
  also have "\<dots> = kron (spzeros (nCy m) 1) (mmul (speye (nCx m)) ?e)"
    by (simp only: ddxz_rows_cancel)
  also have "\<dots> = spzeros (nCy m * nr (mmul (speye (nCx m)) ?e)) (1 * nc (mmul (speye (nCx m)) ?e))"
    by (rule kron_spzeros_left)
  also have "\<dots> = spzeros (nCy m * nCx m) 1"
    by simp
  finally show ?thesis
    by (simp only: wrap_z_kron [OF assms])
qed

lemma curl_blocks:
  "curl_Cr m = hcat (hcat (spzeros (nFx m) (nEx m))
                       (mneg (kron (kron (ddx (nCz m)) (speye (nCy m))) (speye (nCx m)))))
                 (kron (speye (nCz m))
                    (hcat (spzeros (nCx m * nCy m) 1) (kron (ddxz m) (speye (nCx m)))))"
  "curl_Ct m = hcat (hcat (kron (kron (ddx (nCz m)) (speye (nCy m))) (speye (nCx m)))
                       (spzeros (nFy m) (nEy m)))
                 (mneg (kron (speye (nCz m))
                    (hcat (wrap_z m) (kron (speye (nCy m)) (cols_from1 (ddx (nCx m)))))))"
  "curl_Cz m = hcat (hcat (mneg (kron (kron (speye (nCz m + 1)) (ddxz m)) (speye (nCx m))))
                       (kron (kron (speye (nCz m + 1)) (speye (nCy m))) (cols_from1 (ddx (nCx m)))))
                 (spzeros (nFz m) (nEz m))"
  by (simp_all add: curl_Cr_def curl_Ct_def curl_Cz_def Let_def kron3_def vnC_def)

lemma full_product_zero:
  assumes "\<not> isSymmetric m" and "0 < nCx m"
  shows "mmul (hcat (hcat (kron (kron (speye (nCz m)) (speye (nCy m))) (cols_from1 (ddx (nCx m))))
                          (kron (kron (speye (nCz m)) (ddxz m)) (speye (nCx m))))
                    (kron (kron (ddx (nCz m)) (speye (nCy m))) (speye (nCx m))))
              (vcat (vcat (curl_Cr m) (curl_Ct m)) (curl_Cz m))
         = spzeros (nC m) (nE m)"
proof -
  let ?Dx = "cols_from1 (ddx (nCx m))" and ?Dt = "ddxz m" and ?Dz = "ddx (nCz m)"
  let ?K1 = "kron (kron (speye (nCz m)) (speye (nCy m))) ?Dx"
  let ?K2 = "kron (kron (speye (nCz m)) ?Dt) (speye (nCx m))"
  let ?K3 = "kron (kron ?Dz (speye (nCy m))) (speye (nCx m))"
  let ?X = "kron (kron ?Dz ?Dt) (speye (nCx m))"
  let ?Y = "kron (kron ?Dz (speye (nCy m))) ?Dx"
  let ?W = "kron (speye (nCz m)) (hcat (spzeros (nCy m * nCx m) 1) (kron ?Dt ?Dx))"
  let ?Zr = "kron (speye (nCz m)) (hcat (spzeros (nCx m * nCy m) 1) (kron ?Dt (speye (nCx m))))"
  let ?Zt = "kron (speye (nCz m)) (hcat (wrap_z m) (kron (speye (nCy m)) ?Dx))"
  let ?Rz = "kron (kron (speye (nCz m + 1)) ?Dt) (speye (nCx m))"
  let ?Tz = "kron (kron (speye (nCz m + 1)) (speye (nCy m))) ?Dx"
  note c = full_counts [OF assms(1)]
  note s = shape_curl [OF assms(1)]
  have x1: "mmul ?K2 ?K3 = ?X" by (rule kron_mid(1)) simp_all
  have x2: "mmul ?K3 ?Rz = ?X" by (rule kron_mid(2)) simp_all
  have y1: "mmul ?K1 ?K3 = ?Y" by (rule kron_last(1)) simp_all
  have y2: "mmul ?K3 ?Tz = ?Y" by (rule kron_last(2)) simp_all
  have w1: "mmul ?K1 ?Zr = ?W" by (rule kron_seam(1) [where w = "wrap_z m"]) simp_all
  have "mmul ?K2 ?Zt
        = kron (speye (nCz m)) (hcat (mmul (kron ?Dt (speye (nCx m))) (wrap_z m)) (kron ?Dt ?Dx))"
    by (rule kron_seam(2)) simp_all
  then have w2: "mmul ?K2 ?Zt = ?W" by (simp only: seam_zero [OF assms(2)])
  have r: "mmul ?K1 (curl_Cr m) = hcat (hcat (spzeros (nC m) (nc ?X)) (mneg ?Y)) ?W"
  proof -
    have "mmul ?K1 (curl_Cr m)
          = hcat (mmul ?K1 (hcat (spzeros (nFx m) (nEx m)) (mneg ?K3))) (mmul ?K1 ?Zr)"
      unfolding curl_blocks by (rule mmul_hcat_right) (simp add: c algebra_simps)
    also have "mmul ?K1 (hcat (spzeros (nFx m) (nEx m)) (mneg ?K3))
               = hcat (mmul ?K1 (spzeros (nFx m) (nEx m))) (mmul ?K1 (mneg ?K3))"
      by (rule mmul_hcat_right) (simp add: c algebra_simps)
    also have "mmul ?K1 (mneg ?K3) = mneg (mmul ?K1 ?K3)"
      by (rule mmul_mneg_right) simp
    finally show ?thesis
      by (simp only: y1 w1 mmul_spzeros_right) (simp add: c algebra_simps)
  qed
  have t: "mmul ?K2 (curl_Ct m) = hcat (hcat ?X (spzeros (nC m) (nc ?Y))) (mneg ?W)"
  proof -
    have "mmul ?K2 (curl_Ct m)
          = hcat (mmul ?K2 (hcat ?K3 (spzeros (nFy m) (nEy m)))) (mmul ?K2 (mneg ?Zt))"
      unfolding curl_blocks by (rule mmul_hcat_right) simp
    also have "mmul ?K2 (hcat ?K3 (spzeros (nFy m) (nEy m)))
               = hcat (mmul ?K2 ?K3) (mmul ?K2 (spzeros (nFy m) (nEy m)))"
      by (rule mmul_hcat_right) simp
    also have "mmul ?K2 (mneg ?Zt) = mneg (mmul ?K2 ?Zt)"
      by (rule mmul_mneg_right) (simp add: algebra_simps)
    finally show ?thesis
      by (simp only: x1 w2 mmul_spzeros_right) (simp add: c algebra_simps)
  qed
  have z: "mmul ?K3 (curl_Cz m) = hcat (hcat (mneg ?X) ?Y) (spzeros (nC m) (nc ?W))"
  proof -
    have "mmul ?K3 (curl_Cz m)
          = hcat (mmul ?K3 (hcat (mneg ?Rz) ?Tz)) (mmul ?K3 (spzeros (nFz m) (nEz m)))"
      unfolding curl_blocks by (rule mmul_hcat_right) simp
    also have "mmul ?K3 (hcat (mneg ?Rz) ?Tz) = hcat (mmul ?K3 (mneg ?Rz)) (mmul ?K3 ?Tz)"
      by (rule mmul_hcat_right) simp
    also have "mmul ?K3 (mneg ?Rz) = mneg (mmul ?K3 ?Rz)"
      by (rule mmul_mneg_right) simp
    finally show ?thesis
      by (simp only: x2 y2 mmul_spzeros_right) (simp add: c algebra_simps)
  qed
  have "mmul (hcat (hcat ?K1 ?K2) ?K3) (vcat (vcat (curl_Cr m) (curl_Ct m)) (curl_Cz m))
        = madd (mmul (hcat ?K1 ?K2) (vcat (curl_Cr m) (curl_Ct m))) (mmul ?K3 (curl_Cz m))"
    by (rule mmul_hcat_vcat) (simp_all add: s c algebra_simps)
  also have "mmul (hcat ?K1 ?K2) (vcat (curl_Cr m) (curl_Ct m))
             = madd (mmul ?K1 (curl_Cr m)) (mmul ?K2 (curl_Ct m))"
    by (rule mmul_hcat_vcat) (simp_all add: s c algebra_simps)
  finally have "mmul (hcat (hcat ?K1 ?K2) ?K3) (vcat (vcat (curl_Cr m) (curl_Ct m)) (curl_Cz m))
        = madd (madd (hcat (hcat (spzeros (nC m) (nc ?X)) (mneg ?Y)) ?W)
                     (hcat (hcat ?X (spzeros (nC m) (nc ?Y))) (mneg ?W)))
               (hcat (hcat (mneg ?X) ?Y) (spzeros (nC m) (nc ?W)))"
    by (simp only: r t z)
  also have "\<dots> = spzeros (nC m) (nc ?X + nc ?Y + nc ?W)"
    by (rule cancel3) (simp_all add: c algebra_simps)
  also have "\<dots> = spzeros (nC m) (nE m)"
    by (simp add: nE_def c algebra_simps)
  finally show ?thesis .
qed

section \<open>Entries and row sums of the deflation matrices\<close>

lemma binary_kron:
  assumes "\<forall>i j. ent A i j = 0 \<or> ent A i j = 1" and "\<forall>i j. ent B i j = 0 \<or> ent B i j = 1"
  shows "\<forall>i j. ent (kron A B) i j = 0 \<or> ent (kron A B) i j = 1"
proof (intro allI)
  fix i j
  have "ent A (i div nr B) (j div nc B) = 0 \<or> ent A (i div nr B) (j div nc B) = 1"
    using assms(1) by blast
  moreover have "ent B (i mod nr B) (j mod nc B) = 0 \<or> ent B (i mod nr B) (j mod nc B) = 1"
    using assms(2) by blast
  ultimately show "ent (kron A B) i j = 0 \<or> ent (kron A B) i j = 1"
    by (auto simp: kron_def)
qed

lemma binary_speye: "\<forall>i j. ent (speye n) i j = 0 \<or> ent (speye n) i j = 1"
  by (simp add: speye_def)

lemma ent_collapse_x_all:
  "ent (collapse_x m) i j = (if i < nCx m + 1 \<and> j < nCx m \<and> i = j + 1 then 1 else 0)"
proof (cases "i < nCx m + 1 \<and> j < nCx m")
  case True
  then show ?thesis by (simp only: ent_collapse_x) simp
next
  case False
  then show ?thesis by (auto simp: collapse_x_def csr_matrix_def vnC_def)
qed

lemma ent_wrap_theta_all:
  "ent (wrap_theta m) i j
   = (if i < nCy m + 1 \<and> j < nCy m \<and> (if i < nCy m then i else 0) = j then 1 else 0)"
proof (cases "i < nCy m + 1 \<and> j < nCy m")
  case True
  then show ?thesis by (simp only: ent_wrap_theta) simp
next
  case False
  then show ?thesis by (auto simp: wrap_theta_def csr_matrix_def vnC_def)
qed

lemma binary_collapse_x: "\<forall>i j. ent (collapse_x m) i j = 0 \<or> ent (collapse_x m) i j = 1"
  by (simp add: ent_collapse_x_all)

lemma binary_wrap_theta: "\<forall>i j. ent (wrap_theta m) i j = 0 \<or> ent (wrap_theta m) i j = 1"
  by (simp add: ent_wrap_theta_all)

lemma binary_select:
  "\<forall>i j. ent (select_rows (identity n) keep) i j = 0 \<or> ent (select_rows (identity n) keep) i j = 1"
  by (simp add: select_rows_def identity_def Let_def)

lemma rowsum_kron:
  assumes "i < nr A * nr B"
  shows "(\<Sum>j<nc A * nc B. ent (kron A B) i j)
         = (\<Sum>j<nc A. ent A (i div nr B) j) * (\<Sum>j<nc B. ent B (i mod nr B) j)"
proof -
  have "(\<Sum>j<nc A * nc B. ent (kron A B) i j)
        = (\<Sum>j<nc A * nc B. ent A (i div nr B) (j div nc B) * ent B (i mod nr B) (j mod nc B))"
    using assms by (intro sum.cong) (simp_all add: kron_def)
  also have "\<dots> = (\<Sum>a<nc A. \<Sum>b<nc B. ent A (i div nr B) a * ent B (i mod nr B) b)"
    by (rule sum_div_mod)
  also have "\<dots> = (\<Sum>j<nc A. ent A (i div nr B) j) * (\<Sum>j<nc B. ent B (i mod nr B) j)"
    by (simp add: sum_product)
  finally show ?thesis .
qed

lemma rowsum_speye: "i < n \<Longrightarrow> (\<Sum>j<n. ent (speye n) i j) = 1"
proof -
  assume i: "i < n"
  have "(\<Sum>j<n. ent (speye n) i j) = (\<Sum>j<n. if j = i then 1 else 0)"
    using i by (intro sum.cong) (auto simp: speye_def)
  then show ?thesis using i by (simp add: sum.delta)
qed

lemma rowsum_collapse_x:
  assumes "i < nCx m + 1"
  shows "(\<Sum>j<nCx m. ent (collapse_x m) i j) = (if i = 0 then 0 else 1)"
proof -
  have "(\<Sum>j<nCx m. ent (collapse_x m) i j) = (\<Sum>j<nCx m. if j = i - 1 then (if i = 0 then 0 else 1) else 0)"
    using assms by (intro sum.cong) (auto simp: ent_collapse_x_all)
  also have "\<dots> = (if i = 0 then 0 else 1)"
    using assms by (auto simp: sum.delta)
  finally show ?thesis .
qed

lemma rowsum_wrap_theta:
  assumes "i < nCy m + 1" and "0 < nCy m"
  shows "(\<Sum>j<nCy m. ent (wrap_theta m) i j) = 1"
proof -
  let ?t = "if i < nCy m then i else 0"
  have t: "?t < nCy m" using assms by simp
  have "(\<Sum>j<nCy m. ent (wrap_theta m) i j) = (\<Sum>j<nCy m. if j = ?t then 1 else 0)"
    using assms by (intro sum.cong) (auto simp: ent_wrap_theta_all)
  also have "\<dots> = 1"
    using t by simp
  finally show ?thesis .
qed

lemma rowsum_select:
  assumes "i < nr (select_rows (identity n) keep)"
  shows "(\<Sum>j<n. ent (select_rows (identity n) keep) i j) = 1"
proof -
  let ?idx = "filter (\<lambda>i. keep ! i) [0..<n]"
  have i: "i < length ?idx" using assms by (simp add: select_rows_def Let_def)
  then have "?idx ! i \<in> set ?idx" by (rule nth_mem)
  then have b: "?idx ! i < n" by simp
  have "(\<Sum>j<n. ent (select_rows (identity n) keep) i j) = (\<Sum>j<n. if j = ?idx ! i then 1 else 0)"
    using i b by (intro sum.cong) (auto simp: select_rows_def identity_def Let_def)
  then show ?thesis using b by (simp add: sum.delta)
qed

lemma rowsum_Fx:
  assumes "i < nCz m * nCy m * (nCx m + 1)"
  shows "(\<Sum>j<nc (kron3 (speye (nCz m)) (speye (nCy m)) (collapse_x m)).
            ent (kron3 (speye (nCz m)) (speye (nCy m)) (collapse_x m)) i j)
         = (if i mod (nCx m + 1) = 0 then 0 else 1)"
proof -
  let ?I = "speye (nCz m * nCy m)"
  have i: "i < nr ?I * nr (collapse_x m)" using assms by simp
  then have d: "i div (nCx m + 1) < nCz m * nCy m" "i mod (nCx m + 1) < nCx m + 1"
    by (simp_all add: div_less_rows)
  have "(\<Sum>j<nc ?I * nc (collapse_x m). ent (kron ?I (collapse_x m)) i j)
        = (\<Sum>j<nc ?I. ent ?I (i div nr (collapse_x m)) j)
          * (\<Sum>j<nc (collapse_x m). ent (collapse_x m) (i mod nr (collapse_x m)) j)"
    using i by (rule rowsum_kron)
  then show ?thesis
    using d by (simp add: kron3_def kron_speye_speye rowsum_speye rowsum_collapse_x)
qed

lemma rowsum_Fy:
  assumes "i < nCz m * (nCy m + 1) * nCx m" and "0 < nCy m"
  shows "(\<Sum>j<nc (kron3 (speye (nCz m)) (wrap_theta m) (speye (nCx m))).
            ent (kron3 (speye (nCz m)) (wrap_theta m) (speye (nCx m))) i j) = 1"
proof -
  let ?A = "kron (speye (nCz m)) (wrap_theta m)" and ?B = "speye (nCx m)"
  have i: "i < nr ?A * nr ?B" using assms by simp
  then have d: "i div nCx m < nCz m * (nCy m + 1)" "i mod nCx m < nCx m"
    by (simp_all add: div_less_rows mod_less_rows)
  let ?k = "i div nCx m"
  have k: "?k < nr (speye (nCz m)) * nr (wrap_theta m)" using d by simp
  then have e: "?k div (nCy m + 1) < nCz m" "?k mod (nCy m + 1) < nCy m + 1"
    by (simp_all add: div_less_rows)
  have a: "(\<Sum>j<nc (speye (nCz m)) * nc (wrap_theta m). ent ?A ?k j)
        = (\<Sum>j<nc (speye (nCz m)). ent (speye (nCz m)) (?k div nr (wrap_theta m)) j)
          * (\<Sum>j<nc (wrap_theta m). ent (wrap_theta m) (?k mod nr (wrap_theta m)) j)"
    using k by (rule rowsum_kron)
  have "(\<Sum>j<nc ?A * nc ?B. ent (kron ?A ?B) i j)
        = (\<Sum>j<nc ?A. ent ?A (i div nr ?B) j) * (\<Sum>j<nc ?B. ent ?B (i mod nr ?B) j)"
    using i by (rule rowsum_kron)
  then show ?thesis
    using a d e assms(2) by (simp add: kron3_def rowsum_speye rowsum_wrap_theta)
qed

lemma rowsum_Ez:
  assumes "i < nCz m * nr (select_rows (identity n) keep)"
  shows "(\<Sum>j<nc (kron (speye (nCz m)) (select_rows (identity n) keep)).
            ent (kron (speye (nCz m)) (select_rows (identity n) keep)) i j) = 1"
proof -
  let ?S = "select_rows (identity n) keep"
  have c: "nc ?S = n" by (simp add: select_rows_def Let_def)
  have i: "i < nr (speye (nCz m)) * nr ?S" using assms by simp
  then have d: "i div nr ?S < nCz m" "i mod nr ?S < nr ?S"
    by (simp_all add: div_less_rows mod_less_rows)
  have "(\<Sum>j<nc (speye (nCz m)) * nc ?S. ent (kron (speye (nCz m)) ?S) i j)
        = (\<Sum>j<nc (speye (nCz m)). ent (speye (nCz m)) (i div nr ?S) j)
          * (\<Sum>j<nc ?S. ent ?S (i mod nr ?S) j)"
    using i by (rule rowsum_kron)
  then show ?thesis
    using d rowsum_select [OF d(2)] by (simp add: rowsum_speye c)
qed

section \<open>The example scenario\<close>

text \<open>
  C7. The mesh with five radial widths of 20, four azimuthal widths of \<open>2 * pi / 4\<close>
  and three axial widths of 20 is built by the constructor, is not symmetric, has
  \<open>nNx = 6\<close> and 60 cells, and \<open>faceDiv\<close> returns a matrix of 60 rows.
\<close>

theorem example_full_mesh:
  "init (replicate 5 20, replicate 4 (2 * pi / 4), replicate 3 20) [0, 0, 0] None = Inr mesh7
   \<and> \<not> isSymmetric mesh7 \<and> nNx mesh7 = 6 \<and> nC mesh7 = 60
   \<and> (\<exists>D. faceDiv mesh7 = Inr D \<and> nr D = 60)"
proof -
  have a: "init (replicate 5 20, replicate 4 (2 * pi / 4), replicate 3 20) [0, 0, 0] None
           = Inr mesh7"
    by (simp add: init_def mesh7_def dim_def Let_def numeral_eq_Suc)
  have b: "\<not> isSymmetric mesh7" by (simp add: isSymmetric_def counts7)
  have c: "nNx mesh7 = 6" by (simp add: nNx_def b counts7)
  have d: "nC mesh7 = 60" by (simp add: nC_def vnC_def counts7)
  have v: "length (vol mesh7) = 60"
    by (simp add: vol_def b vectorNx_def counts7[unfolded nCx_def nCy_def nCz_def])
  have e: "\<exists>D. faceDiv mesh7 = Inr D \<and> nr D = 60"
    by (simp add: faceDiv_def faceDivx_def faceDivy_def faceDivz_def deflationMatrix_def
        dim_def b counts7 Let_def v)
  from a b c d e show ?thesis by simp
qed

section \<open>Construction\<close>

text \<open>
  C2. Construction from a width triple fails with the assertion error of the constructor
  when the azimuthal widths do not sum to \<open>2 * pi\<close> within \<open>1e-10\<close>, fails when a Cartesian
  origin is given whose length is not the dimension 3, and otherwise succeeds with a mesh
  that holds the widths and the origin exactly as given (nothing is corrected) and the
  Cartesian origin given, or the zero vector when none is given. No condition on the sign
  of the widths is needed.
\<close>

theorem init_contract:
  "(\<not> \<bar>sum_list h2 - 2 * pi\<bar> < 1 / 10 ^ 10 \<longrightarrow>
      init (h1, h2, h3) origin co = Inl (AssertionError ''The 2nd dimension must sum to 2*pi''))
   \<and> (\<forall>c. co = Some c \<and> length c \<noteq> 3 \<longrightarrow> isl (init (h1, h2, h3) origin co))
   \<and> (\<bar>sum_list h2 - 2 * pi\<bar> < 1 / 10 ^ 10 \<and> (\<forall>c. co = Some c \<longrightarrow> length c = 3) \<longrightarrow>
        (\<exists>m. init (h1, h2, h3) origin co = Inr m \<and> hx m = h1 \<and> hy m = h2 \<and> hz m = h3
            \<and> x0 m = origin
            \<and> cartesianOrigin m = (case co of None \<Rightarrow> [0, 0, 0] | Some c \<Rightarrow> c)))"
  by (cases co) (auto simp: init_def dim_def Let_def numeral_eq_Suc)

theorem init_contract_witness:
  "init ([1], [1], [1]) [0, 0, 0] None
     = Inl (AssertionError ''The 2nd dimension must sum to 2*pi'')
   \<and> isl (init ([1], [2 * pi], [1]) [0, 0, 0] (Some [0, 0]))
   \<and> (\<exists>m. init ([1], [2 * pi], [1]) [0, 0, 0] (Some [1, 2, 3]) = Inr m \<and> hx m = [1]
          \<and> hy m = [2 * pi] \<and> hz m = [1] \<and> x0 m = [0, 0, 0]
          \<and> cartesianOrigin m = [1, 2, 3])"
proof -
  have p: "\<not> \<bar>sum_list [1] - 2 * pi\<bar> < 1 / 10 ^ 10"
    using pi_ge_two by simp
  have q: "\<bar>sum_list [2 * pi] - 2 * pi\<bar> < 1 / 10 ^ 10" by simp
  show ?thesis
    using init_contract [of "[1]" "[1]" "[1]" "[0, 0, 0]" None]
      init_contract [of "[2 * pi]" "[1]" "[1]" "[0, 0, 0]" "Some [0, 0]"]
      init_contract [of "[2 * pi]" "[1]" "[1]" "[0, 0, 0]" "Some [1, 2, 3]"] p q
    by simp
qed

section \<open>Unsupported features\<close>

text \<open>
  C3, as stated, fails for \<open>nodalGrad\<close>: on a symmetric mesh the property returns
  \<open>None\<close> and raises nothing. The symmetric mesh of two radial and two axial cells is built
  by the constructor, and its \<open>nodalGrad\<close> is \<open>None\<close>.
\<close>

theorem nodalGrad_symmetric_counterexample:
  "init ([1, 1], [2 * pi], [1, 1]) [0, 0, 0] None = Inr sym_mesh
   \<and> nodalGrad sym_mesh = Inr None"
  by (simp add: sym_mesh_init nodalGrad_def sym_mesh_counts)

text \<open>
  C3, amended. On every mesh \<open>cellGrad\<close> and \<open>nodalLaplacian\<close> raise
  NotImplementedError. On every mesh that is not symmetric \<open>nodalGrad\<close> and the four
  averaging operators \<open>aveE2CC\<close>, \<open>aveE2CCV\<close>, \<open>aveF2CC\<close>, \<open>aveF2CCV\<close> raise
  NotImplementedError. On every symmetric mesh \<open>nodalGrad\<close> returns \<open>None\<close>, and
  \<open>getInterpolationMat\<close> raises an exception that names the location type for each of
  \<open>Ex\<close>, \<open>Ez\<close> and \<open>Fy\<close>, whatever the points and the flag.
\<close>

theorem unsupported_features:
  "cellGrad m = Inl (NotImplementedError ''Cell Grad is not yet implemented.'')
   \<and> nodalLaplacian m = Inl (NotImplementedError ''nodalLaplacian not yet implemented'')
   \<and> (\<not> isSymmetric m \<longrightarrow>
        nodalGrad m = Inl (NotImplementedError ''nodalGrad not yet implemented'')
        \<and> aveE2CC m
            = Inl (NotImplementedError ''wrapping in the averaging is not yet implemented'')
        \<and> aveE2CCV m
            = Inl (NotImplementedError ''wrapping in the averaging is not yet implemented'')
        \<and> aveF2CC m
            = Inl (NotImplementedError ''wrapping in the averaging is not yet implemented'')
        \<and> aveF2CCV m
            = Inl (NotImplementedError ''wrapping in the averaging is not yet implemented''))
   \<and> (isSymmetric m \<longrightarrow>
        nodalGrad m = Inr None
        \<and> (\<forall>locType \<in> set [''Ex'', ''Ez'', ''Fy''].
             getInterpolationMat m Q base npts locType zerosOutside =
               Inl (PyException (''Symmetric CylMesh does not support '' @ locType
                      @ '' interpolation, as this variable does not exist.''))))"
  by (simp add: cellGrad_def nodalLaplacian_def nodalGrad_def aveE2CC_def aveE2CCV_def
      aveF2CC_def aveF2CCV_def getInterpolationMat_def)

theorem unsupported_features_witness:
  "nodalGrad full_mesh = Inl (NotImplementedError ''nodalGrad not yet implemented'')
   \<and> aveF2CCV full_mesh
       = Inl (NotImplementedError ''wrapping in the averaging is not yet implemented'')
   \<and> nodalGrad sym_mesh = Inr None
   \<and> getInterpolationMat sym_mesh (spzeros 1 4) (\<lambda>t z. Inr (spzeros 1 4)) 1 ''Ez'' False =
       Inl (PyException
         ''Symmetric CylMesh does not support Ez interpolation, as this variable does not exist.'')"
  using unsupported_features [of full_mesh]
    unsupported_features [of sym_mesh "spzeros 1 4" "\<lambda>t z. Inr (spzeros 1 4)" 1 False]
    full_mesh_counts(4) sym_mesh_counts(4)
  by simp

section \<open>The z-edge deflation matrix\<close>

text \<open>
  C10. On every valid mesh that is not symmetric, \<open>_deflationMatrix('Ez')\<close> returns a
  matrix with \<open>nEz\<close> rows and \<open>nCz * nNx * nNy\<close> columns. The keep-mask holds
  \<open>nNx * nNy - (nNy - 1)\<close> true entries, the rows kept per axial layer, and over the
  \<open>nCz\<close> layers this is the count \<open>(nNx - 1) * nNy * nCz + nCz\<close> of \<open>nEz\<close>.
\<close>

theorem deflation_Ez_shape:
  assumes "valid m" and "\<not> isSymmetric m"
  shows "\<exists>P. deflationMatrix m ''Ez'' = Inr (Some P)
           \<and> nr P = nEz m \<and> nc P = nCz m * nNx m * nNy m
           \<and> length (filter (\<lambda>b. b) (keepme m)) = nNx m * nNy m - (nNy m - 1)
           \<and> nCz m * (nNx m * nNy m - (nNy m - 1)) = (nNx m - 1) * nNy m * nCz m + nCz m"
proof -
  have ny: "0 < nCy m" using valid_hy_nonempty [OF assms(1)] by (simp add: nCy_def)
  have k: "length (filter (\<lambda>i. keepme m ! i) [0..<nNx m * nNy m]) = nNx m * nNy m - (nNy m - 1)"
    by (rule keep_count [OF assms(2)])
  have lk: "length (keepme m) = nNx m * nNy m" by (simp add: keepme_def vnN_def)
  have f: "filter (\<lambda>b. b) (keepme m) = map (\<lambda>i. keepme m ! i) (filter (\<lambda>i. keepme m ! i) [0..<nNx m * nNy m])"
  proof -
    have "keepme m = map (\<lambda>i. keepme m ! i) [0..<nNx m * nNy m]"
      using lk by (metis map_nth)
    then have "filter (\<lambda>b. b) (keepme m) = filter (\<lambda>b. b) (map (\<lambda>i. keepme m ! i) [0..<nNx m * nNy m])"
      by simp
    then show ?thesis by (simp add: filter_map comp_def)
  qed
  have c: "nNx m * nNy m - (nNy m - 1) = (nNx m - 1) * nNy m + 1"
    using assms(2) ny by (simp add: nNx_def nNy_def)
  have "deflationMatrix m ''Ez'' =
        Inr (Some (kron (speye (nCz m)) (select_rows (identity (nNx m * nNy m)) (keepme m))))"
    using assms(2) by (simp add: deflationMatrix_def dim_def vnN_def nNx_def Let_def)
  moreover have "nr (select_rows (identity (nNx m * nNy m)) (keepme m)) = nNx m * nNy m - (nNy m - 1)"
    using k by (simp add: select_rows_def Let_def)
  moreover have "nc (select_rows (identity (nNx m * nNy m)) (keepme m)) = nNx m * nNy m"
    by (simp add: select_rows_def Let_def)
  moreover have "nEz m = nCz m * ((nNx m - 1) * nNy m + 1)"
    using assms(2) by (simp add: nEz_def algebra_simps)
  ultimately show ?thesis
    using c f k by (simp add: algebra_simps)
qed

theorem deflation_Ez_shape_witness:
  "\<exists>P. deflationMatrix full_mesh ''Ez'' = Inr (Some P)
       \<and> nr P = 10 \<and> nEz full_mesh = 10 \<and> nc P = 12
       \<and> length (filter (\<lambda>b. b) (keepme full_mesh)) = 5"
proof -
  have n: "nNx full_mesh = 3" "nNy full_mesh = 2"
    by (simp_all add: nNx_def nNy_def full_mesh_counts)
  have e: "nEz full_mesh = 10"
    by (simp add: nEz_def n full_mesh_counts)
  show ?thesis
    using deflation_Ez_shape [OF full_mesh_valid full_mesh_counts(4)]
    by (simp add: n e full_mesh_counts)
qed

section \<open>The tags of the deflation matrix\<close>

text \<open>
  C5, as stated, fails: on the full mesh of two cells per axis, which the constructor
  builds, the accepted tag \<open>Ex\<close> gives \<open>None\<close> and no matrix, and a tag outside the list
  fails an assertion that carries no message, so the error does not name the tag.
\<close>

theorem deflationMatrix_Ex_counterexample:
  "init ([1, 1], [pi, pi], [1, 1]) [0, 0, 0] None = Inr full_mesh
   \<and> dim_of (Full full_mesh) = 3
   \<and> deflationMatrix_of (Full full_mesh) ''Ex'' = Inr None
   \<and> deflationMatrix_of (Full full_mesh) ''Cx'' = Inl (AssertionError [])"
  by (simp add: full_mesh_init deflationMatrix_def dim_def)

text \<open>
  C5, amended. For every mesh, of two or of three axes, and every tag: the recognized
  tags are \<open>N\<close>, \<open>F\<close>, \<open>Fx\<close>, \<open>Fy\<close>, \<open>E\<close>, \<open>Ex\<close>, \<open>Ey\<close>, plus \<open>Fz\<close> and \<open>Ez\<close>
  when the mesh is 3-D, and \<open>_deflationMatrix\<close> fails on every other tag with an assertion
  error that has no message (on a 2-D mesh so do \<open>Fz\<close> and \<open>Ez\<close>). For the recognized
  tags \<open>N\<close>, \<open>F\<close>, \<open>E\<close>, \<open>Ex\<close> and \<open>Ey\<close> it returns \<open>None\<close>, whatever the
  dimension. On a 3-D mesh it returns a matrix for \<open>Fx\<close>, \<open>Fy\<close> and \<open>Fz\<close>, and for
  \<open>Ez\<close> when the mesh has a radial cell. The result is a function of the mesh and the
  tag, so two calls with one tag give one result; nothing is cached.
\<close>

theorem deflationMatrix_tags:
  "(dim_of c = 3 \<and> location \<in> set [''Fx'', ''Fy'', ''Fz''] \<longrightarrow>
      (\<exists>P. deflationMatrix_of c location = Inr (Some P)))
   \<and> (dim_of c = 3 \<and> location = ''Ez'' \<and> radial c \<noteq> [] \<longrightarrow>
        (\<exists>P. deflationMatrix_of c location = Inr (Some P)))
   \<and> (location \<in> set [''N'', ''F'', ''E'', ''Ex'', ''Ey''] \<longrightarrow>
        deflationMatrix_of c location = Inr None)
   \<and> (location \<notin> set ([''N'', ''F'', ''Fx'', ''Fy'', ''E'', ''Ex'', ''Ey'']
                         @ (if dim_of c = 3 then [''Fz'', ''Ez''] else [])) \<longrightarrow>
        deflationMatrix_of c location = Inl (AssertionError []))"
proof (cases c)
  case (Disk h1 h2)
  then show ?thesis
    by (auto simp: disk_deflationMatrix_def)
next
  case (Full m)
  have "vnN m ! 0 = 0 \<longrightarrow> hx m = []"
    by (simp add: vnN_def nNx_def nCx_def)
  then show ?thesis
    using Full by (auto simp: deflationMatrix_def dim_def Let_def)
qed

theorem deflationMatrix_tags_witness:
  "(\<exists>P. deflationMatrix_of (Full full_mesh) ''Fy'' = Inr (Some P))
   \<and> (\<exists>P. deflationMatrix_of (Full full_mesh) ''Ez'' = Inr (Some P))
   \<and> deflationMatrix_of (Full full_mesh) ''N'' = Inr None
   \<and> deflationMatrix_of (Full full_mesh) ''CC'' = Inl (AssertionError [])
   \<and> deflationMatrix_of disk_mesh ''Ex'' = Inr None
   \<and> deflationMatrix_of disk_mesh ''Fz'' = Inl (AssertionError [])
   \<and> deflationMatrix_of disk_mesh ''Ez'' = Inl (AssertionError [])"
proof -
  have d: "hx full_mesh \<noteq> []" "dim_of disk_mesh = 2"
    by (simp_all add: full_mesh_def disk_mesh_def)
  show ?thesis
    using deflationMatrix_tags [of "Full full_mesh" "''Fy''"]
      deflationMatrix_tags [of "Full full_mesh" "''Ez''"]
      deflationMatrix_tags [of "Full full_mesh" "''N''"]
      deflationMatrix_tags [of "Full full_mesh" "''CC''"]
      deflationMatrix_tags [of disk_mesh "''Ex''"]
      deflationMatrix_tags [of disk_mesh "''Fz''"]
      deflationMatrix_tags [of disk_mesh "''Ez''"]
    by (simp add: d dim_def)
qed

text \<open>
  On a disk mesh the branches for \<open>Fx\<close> and \<open>Fy\<close> read the third entry of a count
  vector that has two, and the call ends in an IndexError; the amended claim says nothing
  about these two tags on a 2-D mesh.
\<close>

lemma disk_Fx_Fy_IndexError:
  "deflationMatrix_of disk_mesh ''Fx'' = Inl IndexError
   \<and> deflationMatrix_of disk_mesh ''Fy'' = Inl IndexError"
  by (simp add: disk_mesh_def disk_deflationMatrix_def item_def)

section \<open>Total volume\<close>

text \<open>
  C6, as stated, fails on symmetric meshes: there \<open>vectorNx\<close> is the cumulative sum of
  the radial widths without the axis, so the innermost radial node is the first width and
  not zero. On the valid symmetric mesh of a single shell of width 1 and height 1 the
  volumes sum to \<open>pi\<close>, while the outermost and the innermost radial node coincide and
  the annulus formula gives zero.
\<close>

theorem total_volume_counterexample:
  "init ([1], [2 * pi], [1]) [0, 0, 0] None = Inr shell_mesh \<and> valid shell_mesh
   \<and> sum_list (vol shell_mesh) = pi
   \<and> pi * ((last (vectorNx shell_mesh)) ^ 2 - (hd (vectorNx shell_mesh)) ^ 2)
        * sum_list (hz shell_mesh) = 0
   \<and> sum_list (vol shell_mesh)
       \<noteq> pi * ((last (vectorNx shell_mesh)) ^ 2 - (hd (vectorNx shell_mesh)) ^ 2)
          * sum_list (hz shell_mesh)"
proof -
  have s: "isSymmetric shell_mesh" by (simp add: isSymmetric_def nCy_def shell_mesh_def)
  have v: "vectorNx shell_mesh = [1]"
    by (simp add: vectorNx_def s cumsum_def) (simp add: shell_mesh_def)
  have "sum_list (vol shell_mesh) = pi"
    by (simp add: vol_def s v kronv_def scal_def vsub_def sq_def) (simp add: shell_mesh_def)
  then show ?thesis
    using pi_gt_zero by (simp add: shell_mesh_init shell_mesh_valid v)
qed

text \<open>
  C6, amended. On every mesh with at least one radial cell: in symmetric mode the
  volumes sum to \<open>pi * R_outer ^ 2 * height\<close>, the full disc up to the outermost radial
  node; in full mode the innermost radial node is the axis, \<open>R_inner = 0\<close>, and the
  volumes sum to \<open>(sum of the azimuthal widths / 2) * (R_outer ^ 2 - R_inner ^ 2) * height\<close>,
  which is the annulus volume \<open>pi * (R_outer ^ 2 - R_inner ^ 2) * height\<close> when the
  azimuthal widths sum to \<open>2 * pi\<close> exactly. Here \<open>R_outer\<close> and \<open>R_inner\<close> are the
  last and the first entry of \<open>vectorNx\<close> and the height is the sum of the axial widths.
\<close>

theorem total_volume:
  assumes "hx m \<noteq> []"
  shows "(isSymmetric m \<longrightarrow>
            sum_list (vol m) = pi * (last (vectorNx m)) ^ 2 * sum_list (hz m))
       \<and> (\<not> isSymmetric m \<longrightarrow>
            hd (vectorNx m) = 0
            \<and> sum_list (vol m)
              = (sum_list (hy m) / 2) * ((last (vectorNx m)) ^ 2 - (hd (vectorNx m)) ^ 2)
                * sum_list (hz m))
       \<and> (\<not> isSymmetric m \<and> sum_list (hy m) = 2 * pi \<longrightarrow>
            sum_list (vol m)
              = pi * ((last (vectorNx m)) ^ 2 - (hd (vectorNx m)) ^ 2) * sum_list (hz m))"
  using vectorNx_ends [OF assms] sum_vol_symmetric [of m] sum_vol_full [of m]
  by auto

theorem total_volume_witness:
  "sum_list (vol sym_mesh) = pi * 2 ^ 2 * 2
   \<and> sum_list (vol full_mesh) = pi * (2 ^ 2 - 0 ^ 2) * 2"
proof -
  have a: "hx sym_mesh \<noteq> []" "hx full_mesh \<noteq> []" by (simp_all add: sym_mesh_def full_mesh_def)
  have b: "last (vectorNx sym_mesh) = 2" "last (vectorNx full_mesh) = 2" "hd (vectorNx full_mesh) = 0"
    by (simp_all add: vectorNx_def sym_mesh_counts full_mesh_counts cumsum_def)
      (simp_all add: sym_mesh_def full_mesh_def)
  have c: "sum_list (hz sym_mesh) = 2" "sum_list (hz full_mesh) = 2" "sum_list (hy full_mesh) = 2 * pi"
    by (simp_all add: sym_mesh_def full_mesh_def)
  show ?thesis
    using total_volume [OF a(1)] total_volume [OF a(2)] sym_mesh_counts(4) full_mesh_counts(4)
    by (simp add: b c)
qed

section \<open>Vector cell-center interpolation\<close>

text \<open>
  C8, as stated, fails: on the symmetric mesh of four cells and for one point, the result
  for \<open>CCVx\<close> has 8 columns and the result for \<open>CCVy\<close> has 4, so no count of
  vector components gives both widths; and with \<open>zerosOutside\<close> set the call raises a
  NameError and returns nothing.
\<close>

theorem vector_cell_center_columns_counterexample:
  "map_sum id nc (getInterpolationMat sym_mesh Q_example base_example 1 ''CCVx'' False) = Inr 8
   \<and> map_sum id nc (getInterpolationMat sym_mesh Q_example base_example 1 ''CCVy'' False) = Inr 4
   \<and> nC sym_mesh = 4
   \<and> getInterpolationMat sym_mesh Q_example base_example 1 ''CCVx'' True = Inl (NameError ''indZeros'')"
  by (simp add: getInterpolationMat_def sym_mesh_nC Q_example_def hcat_def)

text \<open>
  C8, amended. Let \<open>Q\<close> be the scalar cell-center interpolation matrix of the points,
  with \<open>nPoints\<close> rows and \<open>nC\<close> columns, and let \<open>zerosOutside\<close> be false. For
  \<open>CCVx\<close> the result is \<open>Q\<close> followed by a zero block: \<open>nPoints\<close> rows,
  \<open>2 * nC\<close> columns, the weights in the first block and zeros in the second. For
  \<open>CCVz\<close> the result is a zero block followed by \<open>Q\<close>: \<open>nPoints\<close> rows, \<open>2 * nC\<close>
  columns, zeros in the first block and the weights in the second. For \<open>CCVy\<close> the
  result is \<open>Q\<close> alone, with \<open>nC\<close> columns.
\<close>

theorem vector_cell_center_interpolation:
  assumes "nr Q = npts" and "nc Q = nC m"
  shows "\<exists>X Z. getInterpolationMat m Q base npts ''CCVx'' False = Inr X
           \<and> getInterpolationMat m Q base npts ''CCVy'' False = Inr Q
           \<and> getInterpolationMat m Q base npts ''CCVz'' False = Inr Z
           \<and> nr X = npts \<and> nc X = 2 * nC m
           \<and> (\<forall>i<npts. \<forall>j<nC m. ent X i j = ent Q i j \<and> ent X i (nC m + j) = 0)
           \<and> nr Z = npts \<and> nc Z = 2 * nC m
           \<and> (\<forall>i<npts. \<forall>j<nC m. ent Z i j = 0 \<and> ent Z i (nC m + j) = ent Q i j)"
  using assms by (simp add: getInterpolationMat_def ent_hcat spzeros_def)

theorem vector_cell_center_interpolation_witness:
  "\<exists>X Z. getInterpolationMat sym_mesh Q_example base_example 1 ''CCVx'' False = Inr X
       \<and> getInterpolationMat sym_mesh Q_example base_example 1 ''CCVy'' False = Inr Q_example
       \<and> getInterpolationMat sym_mesh Q_example base_example 1 ''CCVz'' False = Inr Z
       \<and> nc X = 8 \<and> ent X 0 3 = 1 / 4 \<and> ent X 0 7 = 0
       \<and> nc Z = 8 \<and> ent Z 0 3 = 0 \<and> ent Z 0 7 = 1 / 4"
proof -
  have q: "nr Q_example = 1" "nc Q_example = nC sym_mesh" "ent Q_example 0 3 = 1 / 4"
    by (simp_all add: Q_example_def sym_mesh_nC)
  obtain X Z where
    x: "getInterpolationMat sym_mesh Q_example base_example 1 ''CCVx'' False = Inr X"
    and y: "getInterpolationMat sym_mesh Q_example base_example 1 ''CCVy'' False = Inr Q_example"
    and z: "getInterpolationMat sym_mesh Q_example base_example 1 ''CCVz'' False = Inr Z"
    and s: "nc X = 2 * nC sym_mesh" "nc Z = 2 * nC sym_mesh"
    and ex: "\<forall>i<1. \<forall>j<nC sym_mesh. ent X i j = ent Q_example i j \<and> ent X i (nC sym_mesh + j) = 0"
    and ez: "\<forall>i<1. \<forall>j<nC sym_mesh. ent Z i j = 0 \<and> ent Z i (nC sym_mesh + j) = ent Q_example i j"
    using vector_cell_center_interpolation [OF q(1) q(2), of base_example] by blast
  have "ent X 0 3 = 1 / 4 \<and> ent X 0 7 = 0"
    using ex [rule_format, of 0 3] q(3) by (simp add: sym_mesh_nC)
  moreover have "ent Z 0 3 = 0 \<and> ent Z 0 7 = 1 / 4"
    using ez [rule_format, of 0 3] q(3) by (simp add: sym_mesh_nC)
  ultimately show ?thesis using x y z s by (simp add: sym_mesh_nC)
qed

section \<open>Vector averaging\<close>

text \<open>
  C9. On every symmetric mesh with a radial cell, \<open>aveF2CCV\<close> is block diagonal with
  one block per face component: the rows of the first \<open>nC\<close> cells hold the radial-face
  average \<open>kron(speye(nCz), avR)\<close> in the columns of the \<open>x\<close> faces and zeros in the
  columns of the \<open>z\<close> faces, the next \<open>nC\<close> rows hold zeros and the axial-face average
  \<open>kron(av(nCz), speye(nCx))\<close>, so it has \<open>2 * nC\<close> rows; the scalar \<open>aveF2CC\<close> has
  \<open>nC\<close> rows, each half the sum of the two component rows of \<open>aveF2CCV\<close>. The edges of
  a symmetric mesh have the one component \<open>Ey\<close>: \<open>aveE2CCV\<close> is the block-diagonal
  stack of its single block, with \<open>1 * nC\<close> rows, and equals \<open>aveE2CC\<close>.
\<close>

theorem vector_averaging_blocks:
  assumes "isSymmetric m" and "hx m \<noteq> []"
  shows "\<exists>a V S E.
           avR m = Inr a \<and> aveF2CCV m = Inr V \<and> aveF2CC m = Inr S
           \<and> aveE2CCV m = Inr E \<and> aveE2CC m = Inr E
           \<and> nr V = 2 * nC m \<and> nc V = nFx m + nFz m
           \<and> nr S = nC m \<and> nc S = nFx m + nFz m
           \<and> (\<forall>i<nC m. \<forall>j<nFx m.
                 ent V i j = ent (kron (speye (nCz m)) a) i j \<and> ent V (nC m + i) j = 0)
           \<and> (\<forall>i<nC m. \<forall>j<nFz m.
                 ent V i (nFx m + j) = 0
                 \<and> ent V (nC m + i) (nFx m + j) = ent (kron (av (nCz m)) (speye (nCx m))) i j)
           \<and> (\<forall>i<nC m. \<forall>j<nFx m + nFz m. ent S i j = (ent V i j + ent V (nC m + i) j) / 2)
           \<and> E = block_diag [kron (av (nCz m)) a]
           \<and> nr E = 1 * nC m \<and> nc E = nEy m"
proof -
  note c = sym_counts [OF assms(1)]
  let ?a = "mk (nCx m) (nCx m) (\<lambda>i j. if i = 0 \<and> j = 0 then 1 else ent (cols_from1 (av (nCx m))) i j)"
  let ?A = "kron (speye (nCz m)) ?a" and ?B = "kron (av (nCz m)) (speye (nCx m))"
  have a: "avR m = Inr ?a" by (rule avR_ok [OF assms(2)])
  have sA: "nr ?A = nC m" "nc ?A = nFx m" by (simp_all add: c mult.commute)
  have sB: "nr ?B = nC m" "nc ?B = nFz m" by (simp_all add: c mult.commute)
  have V: "aveF2CCV m = Inr (bdiag ?A ?B)"
    using assms(1) by (simp add: aveF2CCV_def a vnC_def)
  have S: "aveF2CC m = Inr (smul (1 / 2) (hcat ?A ?B))"
    using assms(1) by (simp add: aveF2CC_def a vnC_def)
  have E: "aveE2CC m = Inr (kron (av (nCz m)) ?a)" "aveE2CCV m = Inr (kron (av (nCz m)) ?a)"
    using assms(1) by (simp_all add: aveE2CCV_def aveE2CC_def a vnC_def)
  have 1: "\<forall>i<nC m. \<forall>j<nFx m. ent (bdiag ?A ?B) i j = ent ?A i j \<and> ent (bdiag ?A ?B) (nC m + i) j = 0"
    unfolding bdiag_def ent_mk sA sB by simp
  have 2: "\<forall>i<nC m. \<forall>j<nFz m. ent (bdiag ?A ?B) i (nFx m + j) = 0
             \<and> ent (bdiag ?A ?B) (nC m + i) (nFx m + j) = ent ?B i j"
    unfolding bdiag_def ent_mk sA sB by simp
  have 3: "\<forall>i<nC m. \<forall>j<nFx m + nFz m.
             ent (smul (1 / 2) (hcat ?A ?B)) i j
             = (ent (bdiag ?A ?B) i j + ent (bdiag ?A ?B) (nC m + i) j) / 2"
    unfolding bdiag_def hcat_def smul_def ent_mk nr_mk nc_mk sA sB by auto
  show ?thesis
    apply (rule exI [of _ ?a], rule exI [of _ "bdiag ?A ?B"],
        rule exI [of _ "smul (1 / 2) (hcat ?A ?B)"], rule exI [of _ "kron (av (nCz m)) ?a"])
    using a V S E 1 2 3 sA sB by (simp add: c mult.commute)
qed

theorem vector_averaging_blocks_witness:
  "\<exists>V S E. aveF2CCV sym_mesh = Inr V \<and> aveF2CC sym_mesh = Inr S
       \<and> aveE2CCV sym_mesh = Inr E \<and> aveE2CC sym_mesh = Inr E
       \<and> nr V = 8 \<and> nc V = 10 \<and> nr S = 4 \<and> nc S = 10 \<and> nr E = 4 \<and> nc E = 6"
proof -
  have h: "hx sym_mesh \<noteq> []" by (simp add: sym_mesh_def)
  note c = sym_counts [OF sym_mesh_counts(4)]
  show ?thesis
    using vector_averaging_blocks [OF sym_mesh_counts(4) h]
    by (auto simp: c sym_mesh_counts)
qed

section \<open>The divergence of a curl\<close>



section \<open>The deflation matrices\<close>

text \<open>
  C4, as stated, fails for the radial faces: on the valid full mesh of two cells per axis
  the matrix for \<open>Fx\<close> has 12 rows, the ungapped count, and 8 columns, the reduced count
  \<open>nFx\<close>, where the claim has them the other way round; and its row 0, the face on the
  axis, has no nonzero entry: the row sums to zero.
\<close>

theorem deflation_Fx_counterexample:
  "(case deflationMatrix full_mesh ''Fx'' of
      Inr (Some P) \<Rightarrow> nr P = 12 \<and> nc P = 8 \<and> (\<Sum>j<nc P. ent P 0 j) = 0
    | _ \<Rightarrow> False)
   \<and> nFx full_mesh = 8 \<and> valid full_mesh"
proof -
  have "(0::nat) < nCz full_mesh * nCy full_mesh * (nCx full_mesh + 1)"
    by (simp add: full_mesh_counts)
  from rowsum_Fx [OF this]
  have "(\<Sum>j<nc (kron3 (speye (nCz full_mesh)) (speye (nCy full_mesh)) (collapse_x full_mesh)).
            ent (kron3 (speye (nCz full_mesh)) (speye (nCy full_mesh)) (collapse_x full_mesh)) 0 j) = 0"
    by simp
  moreover have "nr (kron3 (speye (nCz full_mesh)) (speye (nCy full_mesh)) (collapse_x full_mesh)) = 12"
    "nc (kron3 (speye (nCz full_mesh)) (speye (nCy full_mesh)) (collapse_x full_mesh)) = 8"
    by (simp_all add: full_mesh_counts)
  moreover have "nFx full_mesh = 8"
    by (simp add: counts_any full_mesh_counts)
  ultimately show ?thesis
    by (simp only: deflation_Fx full_mesh_valid sum.case option.case simp_thms)
qed

text \<open>
  C4, amended. On every valid mesh the matrices for \<open>Fx\<close>, \<open>Fy\<close> and \<open>Fz\<close>, and on
  every valid mesh that is not symmetric also the matrix for \<open>Ez\<close>, have entries in
  \<open>{0, 1}\<close> only. For \<open>Fz\<close> and \<open>Ez\<close> the row count is the reduced count (\<open>nFz\<close>,
  \<open>nEz\<close>), the column count is the ungapped count (\<open>nFz\<close>, \<open>nCz * nNx * nNy\<close>) and
  every row sums to 1, so it is one-hot. For \<open>Fx\<close> and \<open>Fy\<close> the matrix is oriented the
  way the divergence multiplies it: the row count is the ungapped count
  (\<open>nCz * nCy * (nCx + 1)\<close>, \<open>nCz * (nCy + 1) * nCx\<close>) and the column count is the
  reduced count (\<open>nFx\<close>; for \<open>Fy\<close> the count \<open>nCz * nCy * nCx\<close>, which is \<open>nFy\<close> on a
  mesh that is not symmetric); every row of \<open>Fy\<close> is one-hot, and every row of \<open>Fx\<close> is
  one-hot except the rows of the radial index 0, which are zero. The other accepted tags
  produce no matrix.
\<close>

theorem deflation_matrices:
  assumes "valid m"
  shows "(\<exists>Px Py Pz.
           deflationMatrix m ''Fx'' = Inr (Some Px) \<and> deflationMatrix m ''Fy'' = Inr (Some Py)
           \<and> deflationMatrix m ''Fz'' = Inr (Some Pz)
           \<and> (\<forall>i j. ent Px i j = 0 \<or> ent Px i j = 1)
           \<and> (\<forall>i j. ent Py i j = 0 \<or> ent Py i j = 1)
           \<and> (\<forall>i j. ent Pz i j = 0 \<or> ent Pz i j = 1)
           \<and> nr Px = nCz m * nCy m * (nCx m + 1) \<and> nc Px = nFx m
           \<and> (\<forall>i<nr Px. (\<Sum>j<nc Px. ent Px i j) = (if i mod (nCx m + 1) = 0 then 0 else 1))
           \<and> nr Py = nCz m * (nCy m + 1) * nCx m \<and> nc Py = nCz m * nCy m * nCx m
           \<and> (\<forall>i<nr Py. (\<Sum>j<nc Py. ent Py i j) = 1)
           \<and> nr Pz = nFz m \<and> nc Pz = nFz m
           \<and> (\<forall>i<nr Pz. (\<Sum>j<nc Pz. ent Pz i j) = 1)
           \<and> (\<not> isSymmetric m \<longrightarrow>
                 nc Py = nFy m
                 \<and> (\<exists>Pe. deflationMatrix m ''Ez'' = Inr (Some Pe)
                       \<and> (\<forall>i j. ent Pe i j = 0 \<or> ent Pe i j = 1)
                       \<and> nr Pe = nEz m \<and> nc Pe = nCz m * nNx m * nNy m
                       \<and> (\<forall>i<nr Pe. (\<Sum>j<nc Pe. ent Pe i j) = 1))))
       \<and> (deflationMatrix m ''N'' = Inr None \<and> deflationMatrix m ''F'' = Inr None
          \<and> deflationMatrix m ''E'' = Inr None \<and> deflationMatrix m ''Ex'' = Inr None
          \<and> deflationMatrix m ''Ey'' = Inr None)"
    (is "?matrices \<and> ?none")
proof -
  let ?Px = "kron3 (speye (nCz m)) (speye (nCy m)) (collapse_x m)"
  let ?Py = "kron3 (speye (nCz m)) (wrap_theta m) (speye (nCx m))"
  let ?Pz = "speye (nFz m)"
  have ny: "0 < nCy m" using valid_hy_nonempty [OF assms] by (simp add: nCy_def)
  have z: "deflationMatrix m ''Fz'' = Inr (Some ?Pz)"
    by (simp add: deflationMatrix_def dim_def vnF_def)
  have bx: "\<forall>i j. ent ?Px i j = 0 \<or> ent ?Px i j = 1"
    unfolding kron3_def by (intro binary_kron binary_speye binary_collapse_x)
  have "by": "\<forall>i j. ent ?Py i j = 0 \<or> ent ?Py i j = 1"
    unfolding kron3_def by (intro binary_kron binary_speye binary_wrap_theta)
  have sx: "nr ?Px = nCz m * nCy m * (nCx m + 1)" "nc ?Px = nFx m"
    by (simp_all add: counts_any algebra_simps)
  have sy: "nr ?Py = nCz m * (nCy m + 1) * nCx m" "nc ?Py = nCz m * nCy m * nCx m"
    by simp_all
  have rx: "\<forall>i<nr ?Px. (\<Sum>j<nc ?Px. ent ?Px i j) = (if i mod (nCx m + 1) = 0 then 0 else 1)"
    using rowsum_Fx [of _ m] by (simp only: sx(1)) blast
  have ry: "\<forall>i<nr ?Py. (\<Sum>j<nc ?Py. ent ?Py i j) = 1"
    using rowsum_Fy [of _ m] ny by (simp only: sy(1)) blast
  have rz: "\<forall>i<nr ?Pz. (\<Sum>j<nc ?Pz. ent ?Pz i j) = 1"
    by (simp add: rowsum_speye)
  have e: "\<not> isSymmetric m \<longrightarrow>
             nc ?Py = nFy m
             \<and> (\<exists>Pe. deflationMatrix m ''Ez'' = Inr (Some Pe)
                   \<and> (\<forall>i j. ent Pe i j = 0 \<or> ent Pe i j = 1)
                   \<and> nr Pe = nEz m \<and> nc Pe = nCz m * nNx m * nNy m
                   \<and> (\<forall>i<nr Pe. (\<Sum>j<nc Pe. ent Pe i j) = 1))"
  proof
    assume f: "\<not> isSymmetric m"
    let ?n = "prod_list (take 2 (vnN m))"
    let ?Pe = "kron (speye (nCz m)) (select_rows (identity ?n) (keepme m))"
    have d: "deflationMatrix m ''Ez'' = Inr (Some ?Pe)"
      using f by (simp add: deflationMatrix_def dim_def vnN_def nNx_def Let_def)
    have k: "length (filter (\<lambda>i. keepme m ! i) [0..<nNx m * nNy m])
             = nNx m * nNy m - (nNy m - 1)"
      by (rule keep_count [OF f])
    have c: "nNx m * nNy m - (nNy m - 1) = (nNx m - 1) * nNy m + 1"
      using f ny by (simp add: nNx_def nNy_def)
    have n: "?n = nNx m * nNy m" by (simp add: vnN_def)
    have sr: "nr ?Pe = nEz m"
      using k c f by (simp add: select_rows_def Let_def n nEz_def algebra_simps)
    have sc: "nc ?Pe = nCz m * nNx m * nNy m"
      by (simp add: select_rows_def Let_def n algebra_simps)
    have b: "\<forall>i j. ent ?Pe i j = 0 \<or> ent ?Pe i j = 1"
      by (intro binary_kron binary_speye binary_select)
    have r: "\<forall>i<nr ?Pe. (\<Sum>j<nc ?Pe. ent ?Pe i j) = 1"
      using rowsum_Ez [of _ m ?n "keepme m"] by simp
    have "nc ?Py = nFy m" using f by (simp add: full_counts algebra_simps)
    then show "nc ?Py = nFy m
             \<and> (\<exists>Pe. deflationMatrix m ''Ez'' = Inr (Some Pe)
                   \<and> (\<forall>i j. ent Pe i j = 0 \<or> ent Pe i j = 1)
                   \<and> nr Pe = nEz m \<and> nc Pe = nCz m * nNx m * nNy m
                   \<and> (\<forall>i<nr Pe. (\<Sum>j<nc Pe. ent Pe i j) = 1))"
      using d b r sr sc by blast
  qed
  have matrices: ?matrices
    apply (rule exI [of _ ?Px], rule exI [of _ ?Py], rule exI [of _ ?Pz])
    using deflation_Fx [of m] deflation_Fy [of m] z bx "by" binary_speye [of "nFz m"] sx sy rx ry rz e
    by (simp only: shape_simps simp_thms)
  have none: ?none
    by (simp add: deflationMatrix_def dim_def)
  from matrices none show ?thesis by (rule conjI)
qed

theorem deflation_matrices_witness:
  "\<exists>Px Py Pz Pe.
     deflationMatrix full_mesh ''Fx'' = Inr (Some Px) \<and> deflationMatrix full_mesh ''Fy'' = Inr (Some Py)
     \<and> deflationMatrix full_mesh ''Fz'' = Inr (Some Pz) \<and> deflationMatrix full_mesh ''Ez'' = Inr (Some Pe)
     \<and> nr Px = 12 \<and> nc Px = 8 \<and> nr Py = 12 \<and> nc Py = 8 \<and> nr Pz = 12 \<and> nc Pz = 12
     \<and> nr Pe = 10 \<and> nc Pe = 12
     \<and> (\<Sum>j<nc Px. ent Px 0 j) = 0 \<and> (\<Sum>j<nc Px. ent Px 1 j) = 1
     \<and> (\<Sum>j<nc Py. ent Py 11 j) = 1 \<and> (\<Sum>j<nc Pe. ent Pe 9 j) = 1
     \<and> deflationMatrix full_mesh ''N'' = Inr None \<and> deflationMatrix full_mesh ''Ex'' = Inr None"
proof -
  note cf = full_counts [OF full_mesh_counts(4)] full_mesh_counts
  have n: "nFx full_mesh = 8" "nFy full_mesh = 8" "nFz full_mesh = 12" "nEz full_mesh = 10"
    "nNx full_mesh = 3" "nNy full_mesh = 2"
    by (simp_all add: cf)
  obtain Px Py Pz where
    d: "deflationMatrix full_mesh ''Fx'' = Inr (Some Px)" "deflationMatrix full_mesh ''Fy'' = Inr (Some Py)"
      "deflationMatrix full_mesh ''Fz'' = Inr (Some Pz)"
    and sx: "nr Px = nCz full_mesh * nCy full_mesh * (nCx full_mesh + 1)" "nc Px = nFx full_mesh"
    and rx: "\<forall>i<nr Px. (\<Sum>j<nc Px. ent Px i j) = (if i mod (nCx full_mesh + 1) = 0 then 0 else 1)"
    and sy: "nr Py = nCz full_mesh * (nCy full_mesh + 1) * nCx full_mesh"
      "nc Py = nCz full_mesh * nCy full_mesh * nCx full_mesh"
    and ry: "\<forall>i<nr Py. (\<Sum>j<nc Py. ent Py i j) = 1"
    and sz: "nr Pz = nFz full_mesh" "nc Pz = nFz full_mesh"
    and e: "\<not> isSymmetric full_mesh \<longrightarrow>
                 nc Py = nFy full_mesh
                 \<and> (\<exists>Pe. deflationMatrix full_mesh ''Ez'' = Inr (Some Pe)
                       \<and> (\<forall>i j. ent Pe i j = 0 \<or> ent Pe i j = 1)
                       \<and> nr Pe = nEz full_mesh \<and> nc Pe = nCz full_mesh * nNx full_mesh * nNy full_mesh
                       \<and> (\<forall>i<nr Pe. (\<Sum>j<nc Pe. ent Pe i j) = 1))"
    and nn: "deflationMatrix full_mesh ''N'' = Inr None" "deflationMatrix full_mesh ''Ex'' = Inr None"
    using deflation_matrices [OF full_mesh_valid] by blast
  from e full_mesh_counts(4) obtain Pe where
    de: "deflationMatrix full_mesh ''Ez'' = Inr (Some Pe)"
    and se: "nr Pe = nEz full_mesh" "nc Pe = nCz full_mesh * nNx full_mesh * nNy full_mesh"
    and re: "\<forall>i<nr Pe. (\<Sum>j<nc Pe. ent Pe i j) = 1"
    by blast
  have x: "nr Px = 12" "nc Px = 8" using sx by (simp_all add: n full_mesh_counts)
  have y: "nr Py = 12" "nc Py = 8" using sy by (simp_all add: full_mesh_counts)
  have z: "nr Pz = 12" "nc Pz = 12" using sz by (simp_all add: n)
  have w: "nr Pe = 10" "nc Pe = 12" using se by (simp_all add: n full_mesh_counts)
  have "(0::nat) < nr Px" "(1::nat) < nr Px" "(11::nat) < nr Py" "(9::nat) < nr Pe"
    by (simp_all add: x y w)
  then have "(\<Sum>j<nc Px. ent Px 0 j) = 0" "(\<Sum>j<nc Px. ent Px 1 j) = 1"
    "(\<Sum>j<nc Py. ent Py 11 j) = 1" "(\<Sum>j<nc Pe. ent Pe 9 j) = 1"
    using rx [rule_format, of 0] rx [rule_format, of 1] ry [rule_format, of 11]
      re [rule_format, of 9]
    by (simp_all add: full_mesh_counts)
  with d de x y z w nn show ?thesis by blast
qed

end
